theory Spec2Isabelle
  imports Complex_Main "HOL-Library.Multiset" "HOL-Library.Char_ord" "HOL-Library.List_Lexorder"
begin

section \<open>Data model\<close>

text \<open>
  A C++ \<open>double\<close> as far as the program needs it: a finite value, an infinity or a
  not-a-number. A finite value is carried exactly: the rounding of \<open>atof\<close> to binary64 and
  the range of binary64 are not part of the model. Every finite value that a theorem below
  names is exactly representable.
\<close>

datatype double = Finite real | PosInf | NegInf | NaN

text \<open>\<open>struct Bid\<close>; the constructor \<open>Bid()\<close> sets \<open>amount\<close> to 0.0.\<close>

record Bid =
  bidId :: string
  title :: string
  fund :: string
  amount :: double

definition Bid_new :: Bid where
  "Bid_new = \<lparr>bidId = [], title = [], fund = [], amount = Finite 0\<rparr>"

section \<open>Numeric conversion\<close>

text \<open>
  \<open>strToDouble\<close> ends in \<open>atof\<close> of the C library, which is \<open>strtod(s, NULL)\<close>. It is
  written out here after its description in the C standard, for the "C" locale the
  program runs in: white space is skipped, an optional sign is read, and the longest
  initial part that is a decimal floating constant, a hexadecimal one, \<open>inf\<close>/\<open>infinity\<close>
  or \<open>nan\<close> is converted; what follows it is ignored. When nothing can be converted the
  result is zero. \<open>atof\<close> reports no error.
\<close>

definition isspace :: "char \<Rightarrow> bool" where
  "isspace c \<longleftrightarrow> c = CHR '' '' \<or> (CHR 0x09 \<le> c \<and> c \<le> CHR 0x0D)"

definition isdigit :: "char \<Rightarrow> bool" where
  "isdigit c \<longleftrightarrow> CHR ''0'' \<le> c \<and> c \<le> CHR ''9''"

definition tolower :: "char \<Rightarrow> char" where
  "tolower c = (if CHR ''A'' \<le> c \<and> c \<le> CHR ''Z'' then char_of (of_char c + (32::nat)) else c)"

definition isxdigit :: "char \<Rightarrow> bool" where
  "isxdigit c \<longleftrightarrow> isdigit c \<or> (CHR ''a'' \<le> tolower c \<and> tolower c \<le> CHR ''f'')"

definition digit_val :: "char \<Rightarrow> nat" where
  "digit_val c =
     (if isdigit c then of_char c - of_char CHR ''0''
      else of_char (tolower c) - of_char CHR ''a'' + 10)"

text \<open>The number written by a string of digits in the given base.\<close>

definition digits_val :: "nat \<Rightarrow> string \<Rightarrow> nat" where
  "digits_val base ds = foldl (\<lambda>a c. base * a + digit_val c) 0 ds"

text \<open>\<open>m * base ^ k\<close> for an exponent \<open>k\<close> of either sign.\<close>

definition scale :: "real \<Rightarrow> nat \<Rightarrow> int \<Rightarrow> real" where
  "scale m base k = (if 0 \<le> k then m * real base ^ nat k else m / real base ^ nat (- k))"

text \<open>Does \<open>s\<close> begin with the lower-case word \<open>w\<close>, in either case of letters?\<close>

definition starts_ci :: "string \<Rightarrow> string \<Rightarrow> bool" where
  "starts_ci w s \<longleftrightarrow> map tolower (take (length w) s) = w"

text \<open>
  The exponent part after the mantissa: the letter \<open>mark\<close> (in either case), an optional
  sign and a non-empty string of decimal digits. A string that does not begin with a
  complete exponent part contributes the exponent 0.
\<close>

definition exponent :: "char \<Rightarrow> string \<Rightarrow> int" where
  "exponent mark s =
     (case s of
        [] \<Rightarrow> 0
      | c # r \<Rightarrow>
          if tolower c \<noteq> mark then 0
          else
            (let neg = (r \<noteq> [] \<and> hd r = CHR ''-'');
                 r' = (if r \<noteq> [] \<and> (hd r = CHR ''-'' \<or> hd r = CHR ''+'') then tl r else r);
                 ds = takeWhile isdigit r'
             in if ds = [] then 0
                else if neg then - int (digits_val 10 ds) else int (digits_val 10 ds)))"

text \<open>
  The value of the longest initial part of \<open>s\<close> that is a mantissa of digits accepted by
  \<open>dig\<close>, with at most one point, followed by an optional exponent part; 0 when \<open>s\<close> begins
  with no digit of the mantissa.
\<close>

definition mantissa_value :: "(char \<Rightarrow> bool) \<Rightarrow> nat \<Rightarrow> nat \<Rightarrow> nat \<Rightarrow> char \<Rightarrow> string \<Rightarrow> real" where
  "mantissa_value dig base ebase bits mark s =
     (let ip = takeWhile dig s;
          r = dropWhile dig s;
          fp = (if r \<noteq> [] \<and> hd r = CHR ''.'' then takeWhile dig (tl r) else []);
          r' = (if r \<noteq> [] \<and> hd r = CHR ''.'' then dropWhile dig (tl r) else r)
      in if ip = [] \<and> fp = [] then 0
         else scale (real (digits_val base (ip @ fp))) ebase
                (exponent mark r' - int (bits * length fp)))"

definition decimal_value :: "string \<Rightarrow> real" where
  "decimal_value s = mantissa_value isdigit 10 10 1 CHR ''e'' s"

definition hex_value :: "string \<Rightarrow> real" where
  "hex_value s = mantissa_value isxdigit 16 2 4 CHR ''p'' s"

text \<open>\<open>0x\<close> or \<open>0X\<close> followed by a hexadecimal digit, or by a point and a hexadecimal digit.\<close>

definition hex_prefix :: "string \<Rightarrow> bool" where
  "hex_prefix s \<longleftrightarrow>
     starts_ci ''0x'' s \<and>
     (let r = drop 2 s
      in r \<noteq> [] \<and> (isxdigit (hd r) \<or> (hd r = CHR ''.'' \<and> tl r \<noteq> [] \<and> isxdigit (hd (tl r)))))"

definition skip_space :: "string \<Rightarrow> string" where
  "skip_space s = dropWhile isspace s"

definition skip_sign :: "string \<Rightarrow> string" where
  "skip_sign s = (if s \<noteq> [] \<and> (hd s = CHR ''-'' \<or> hd s = CHR ''+'') then tl s else s)"

definition atof :: "string \<Rightarrow> double" where
  "atof s =
     (let t = skip_space s;
          neg = (t \<noteq> [] \<and> hd t = CHR ''-'');
          u = skip_sign t
      in if starts_ci ''inf'' u then (if neg then NegInf else PosInf)
         else if starts_ci ''nan'' u then NaN
         else
           (let v = (if hex_prefix u then hex_value (drop 2 u) else decimal_value u)
            in Finite (if neg then - v else v)))"

text \<open>\<open>str.erase(remove(str.begin(), str.end(), ch), str.end())\<close>\<close>

definition erase_all :: "char \<Rightarrow> string \<Rightarrow> string" where
  "erase_all ch str = filter (\<lambda>c. c \<noteq> ch) str"

text \<open>\<open>str.c_str()\<close> read as a C string: the characters before the first NUL.\<close>

definition c_str :: "string \<Rightarrow> string" where
  "c_str str = takeWhile (\<lambda>c. c \<noteq> CHR 0x00) str"

text \<open>\<open>double strToDouble(string str, char ch)\<close>\<close>

definition strToDouble :: "string \<Rightarrow> char \<Rightarrow> double" where
  "strToDouble str ch = atof (c_str (erase_all ch str))"

text \<open>
  What \<open>strtod\<close> can convert begins with a digit (a hexadecimal constant begins with
  \<open>0\<close>), with a point and a digit, or with \<open>inf\<close> or \<open>nan\<close>.
\<close>

definition begins_number :: "string \<Rightarrow> bool" where
  "begins_number u \<longleftrightarrow>
     u \<noteq> [] \<and>
     (isdigit (hd u) \<or> (hd u = CHR ''.'' \<and> tl u \<noteq> [] \<and> isdigit (hd (tl u))) \<or>
      starts_ci ''inf'' u \<or> starts_ci ''nan'' u)"

text \<open>
  The specification's "parseable as a decimal number", read on the whole string: an
  optional sign, then digits with at most one point among them and at least one digit,
  and nothing else.
\<close>

definition decimal_number :: "string \<Rightarrow> bool" where
  "decimal_number s \<longleftrightarrow>
     (let u = skip_sign s;
          ip = takeWhile isdigit u;
          r = dropWhile isdigit u;
          fp = (if r \<noteq> [] \<and> hd r = CHR ''.'' then tl r else [])
      in (r = [] \<or> hd r = CHR ''.'') \<and> list_all isdigit fp \<and> (ip \<noteq> [] \<or> fp \<noteq> []))"

section \<open>Loading the bids\<close>

text \<open>
  Modelled from the spec: \<open>csv::Parser\<close> and \<open>csv::Error\<close> of \<open>CSVparser.hpp\<close>, which is not
  among the sources. The parser is a collaborator that reads the tabular file; it reports
  a failure by throwing \<open>csv::Error\<close>, which carries the text of \<open>what()\<close>. A row answers
  the read of a column \<open>file[i][j]\<close> with a string or by throwing \<open>csv::Error\<close>. The outcome
  of the constructor \<open>csv::Parser(csvPath)\<close> is the error it throws or the data rows of the
  file in file order.
\<close>

datatype csv_error = Error (what: string)

type_synonym row = "nat \<Rightarrow> csv_error + string"

type_synonym parser = "csv_error + row list"

text \<open>A line written to \<open>cout\<close> or to \<open>cerr\<close>.\<close>

datatype line = Cout string | Cerr string

text \<open>
  How a call of \<open>loadBids\<close> ends: it returns the vector, or an exception leaves it. The
  driver calls \<open>loadBids\<close> outside of any \<open>try\<close>, so such an exception ends the process.
\<close>

datatype load_result = Returned "Bid list" | Uncaught csv_error

text \<open>
  The body of the loop: the four column reads in the order of the source; the first that
  throws ends the iteration before \<open>push_back\<close>.
\<close>

definition read_bid :: "row \<Rightarrow> csv_error + Bid" where
  "read_bid r =
     (case r 1 of Inl e \<Rightarrow> Inl e | Inr i \<Rightarrow>
      (case r 0 of Inl e \<Rightarrow> Inl e | Inr t \<Rightarrow>
       (case r 8 of Inl e \<Rightarrow> Inl e | Inr f \<Rightarrow>
        (case r 4 of Inl e \<Rightarrow> Inl e | Inr a \<Rightarrow>
           Inr (Bid_new\<lparr>bidId := i, title := t, fund := f,
                         amount := strToDouble a (CHR ''$'')\<rparr>)))))"

text \<open>
  The loop \<open>for (int i = 0; i < file.rowCount(); i++)\<close> inside \<open>try\<close>, over the rows still
  to read: the vector built so far, and the error if a row threw.
\<close>

fun load_rows :: "row list \<Rightarrow> Bid list \<Rightarrow> Bid list \<times> csv_error option" where
  "load_rows [] bids = (bids, None)"
| "load_rows (r # rs) bids =
     (case read_bid r of
        Inl e \<Rightarrow> (bids, Some e)
      | Inr bid \<Rightarrow> load_rows rs (bids @ [bid]))"

text \<open>
  \<open>vector<Bid> loadBids(const string& csvPath)\<close>, given the outcome of
  \<open>csv::Parser(csvPath)\<close>. The parser is constructed before the \<open>try\<close> block.
\<close>

definition loadBids :: "parser \<Rightarrow> string \<Rightarrow> line list \<times> load_result" where
  "loadBids file csvPath =
     (let out = [Cout (''Loading CSV file '' @ csvPath)]
      in case file of
           Inl e \<Rightarrow> (out, Uncaught e)
         | Inr rows \<Rightarrow>
            (case load_rows rows [] of
               (bids, None) \<Rightarrow> (out, Returned bids)
             | (bids, Some e) \<Rightarrow>
                 (out @ [Cerr (''Error loading CSV: '' @ what e)], Returned bids)))"

text \<open>A row of the given cells; the read of a column it does not have throws.\<close>

definition row_of :: "string list \<Rightarrow> row" where
  "row_of cells j =
     (if j < length cells then Inr (cells ! j) else Inl (Error ''no such column''))"

section \<open>Vector access\<close>

text \<open>
  \<open>bids[i]\<close> on a \<open>std::vector\<close> is unchecked: an index outside the vector is undefined
  behaviour. The model makes every element access explicit and answers \<open>None\<close> for an
  access out of range. The index is given by its value: an \<open>int\<close> index that is negative
  converts to a \<open>size_t\<close> beyond every vector size.

  An \<open>int\<close> has 32 bits and a \<open>size_t\<close> 64. A variable of type \<open>int\<close> holds a HOL integer
  in the range of \<open>int\<close>; an addition or subtraction of \<open>int\<close>s whose result leaves the range
  is undefined behaviour and answers \<open>None\<close> as well. A variable of type \<open>size_t\<close> holds a
  natural number, and every conversion between \<open>int\<close> and \<open>size_t\<close> is written out.
\<close>

definition elem_at :: "Bid list \<Rightarrow> int \<Rightarrow> Bid option" where
  "elem_at bids i = (if 0 \<le> i \<and> i < int (length bids) then Some (bids ! nat i) else None)"

text \<open>The range of \<open>int\<close>, and \<open>a + b\<close> and \<open>a - b\<close> on \<open>int\<close>.\<close>

definition int_range :: "int \<Rightarrow> bool" where
  "int_range i \<longleftrightarrow> - (2 ^ 31) \<le> i \<and> i < 2 ^ 31"

definition int_add :: "int \<Rightarrow> int \<Rightarrow> int option" where
  "int_add a b = (if int_range (a + b) then Some (a + b) else None)"

definition int_sub :: "int \<Rightarrow> int \<Rightarrow> int option" where
  "int_sub a b = (if int_range (a - b) then Some (a - b) else None)"

lemma int_add_Some [simp]: "int_add a b = Some c \<longleftrightarrow> c = a + b \<and> int_range (a + b)"
  by (auto simp: int_add_def)

lemma int_sub_Some [simp]: "int_sub a b = Some c \<longleftrightarrow> c = a - b \<and> int_range (a - b)"
  by (auto simp: int_sub_def)

lemma int_add_eq [simp]: "int_range (a + b) \<Longrightarrow> int_add a b = Some (a + b)"
  by (simp add: int_add_def)

lemma int_sub_eq [simp]: "int_range (a - b) \<Longrightarrow> int_sub a b = Some (a - b)"
  by (simp add: int_sub_def)

lemma int_add_None [simp]: "int_add a b = None \<longleftrightarrow> \<not> int_range (a + b)"
  by (simp add: int_add_def)

lemma int_sub_None [simp]: "int_sub a b = None \<longleftrightarrow> \<not> int_range (a - b)"
  by (simp add: int_sub_def)

text \<open>\<open>swap(bids[i], bids[j])\<close>\<close>

definition swap_at :: "Bid list \<Rightarrow> int \<Rightarrow> int \<Rightarrow> Bid list option" where
  "swap_at bids i j =
     (case elem_at bids i of None \<Rightarrow> None | Some x \<Rightarrow>
      (case elem_at bids j of None \<Rightarrow> None | Some y \<Rightarrow>
         Some (bids[nat i := y, nat j := x])))"

text \<open>Conversion of an \<open>int\<close> to \<open>size_t\<close> (64 bits): the value modulo \<open>2^64\<close>.\<close>

definition size_t_of_int :: "int \<Rightarrow> nat" where
  "size_t_of_int i = nat (i mod 2 ^ 64)"

text \<open>Subtraction in \<open>size_t\<close> wraps around.\<close>

definition size_t_sub :: "nat \<Rightarrow> nat \<Rightarrow> nat" where
  "size_t_sub a b = nat ((int a - int b) mod 2 ^ 64)"

text \<open>Conversion of a \<open>size_t\<close> to \<open>int\<close> (32 bits, two's complement).\<close>

definition int_of_size_t :: "nat \<Rightarrow> int" where
  "int_of_size_t n = (let m = int n mod 2 ^ 32 in if m < 2 ^ 31 then m else m - 2 ^ 32)"

text \<open>Integer division of C++ truncates towards zero.\<close>

definition c_div :: "int \<Rightarrow> int \<Rightarrow> int" where
  "c_div a b = (if (a < 0) = (b < 0) then \<bar>a\<bar> div \<bar>b\<bar> else - (\<bar>a\<bar> div \<bar>b\<bar>))"

section \<open>Quicksort\<close>

text \<open>\<open>while (bids[low].title < pivot) low++;\<close>\<close>

function scanLow :: "Bid list \<Rightarrow> string \<Rightarrow> int \<Rightarrow> int option" where
  "scanLow bids pivot low =
     (case elem_at bids low of
        None \<Rightarrow> None
      | Some x \<Rightarrow>
          if title x < pivot
          then (case int_add low 1 of None \<Rightarrow> None | Some low' \<Rightarrow> scanLow bids pivot low')
          else Some low)"
  by pat_completeness auto
termination
  by (relation "measure (\<lambda>(bids, pivot, low). nat (int (length bids) - low))")
     (auto simp: elem_at_def split: if_splits)

declare scanLow.simps [simp del]

text \<open>\<open>while (pivot < bids[high].title) high--;\<close>\<close>

function scanHigh :: "Bid list \<Rightarrow> string \<Rightarrow> int \<Rightarrow> int option" where
  "scanHigh bids pivot high =
     (case elem_at bids high of
        None \<Rightarrow> None
      | Some x \<Rightarrow>
          if pivot < title x
          then (case int_sub high 1 of None \<Rightarrow> None | Some high' \<Rightarrow> scanHigh bids pivot high')
          else Some high)"
  by pat_completeness auto
termination
  by (relation "measure (\<lambda>(bids, pivot, high). nat (high + 1))")
     (auto simp: elem_at_def split: if_splits)

declare scanHigh.simps [simp del]

lemma scanLow_ge: "scanLow bids pivot low = Some l \<Longrightarrow> low \<le> l"
proof (induction bids pivot low rule: scanLow.induct)
  case (1 bids pivot low)
  then show ?case
    by (subst (asm) (2) scanLow.simps) (auto split: option.splits if_splits)
qed

lemma scanHigh_le: "scanHigh bids pivot high = Some h \<Longrightarrow> h \<le> high"
proof (induction bids pivot high rule: scanHigh.induct)
  case (1 bids pivot high)
  then show ?case
    by (subst (asm) (2) scanHigh.simps) (auto split: option.splits if_splits)
qed

text \<open>The body of \<open>while (true)\<close> in \<open>partition\<close>; the result is the vector and the index returned.\<close>

function partition_loop :: "Bid list \<Rightarrow> string \<Rightarrow> int \<Rightarrow> int \<Rightarrow> (Bid list \<times> int) option" where
  "partition_loop bids pivot low high =
     (case scanLow bids pivot low of
        None \<Rightarrow> None
      | Some low' \<Rightarrow>
         (case scanHigh bids pivot high of
            None \<Rightarrow> None
          | Some high' \<Rightarrow>
             if low' \<ge> high' then Some (bids, high')
             else (case swap_at bids low' high' of
                     None \<Rightarrow> None
                   | Some bids' \<Rightarrow>
                      (case int_add low' 1 of
                         None \<Rightarrow> None
                       | Some low'' \<Rightarrow>
                          (case int_sub high' 1 of
                             None \<Rightarrow> None
                           | Some high'' \<Rightarrow> partition_loop bids' pivot low'' high'')))))"
  by pat_completeness auto
termination
proof (relation "measure (\<lambda>(bids, pivot, low, high). nat (high - low))", goal_cases)
  case 1
  show ?case by simp
next
  case (2 bids pivot low high low' high' bids' low'' high'')
  from 2 have "low \<le> low'" "high' \<le> high"
    by (auto dest: scanLow_ge scanHigh_le)
  moreover from 2 have "low'' = low' + 1" "high'' = high' - 1"
    by auto
  ultimately show ?case using 2 by simp
qed

declare partition_loop.simps [simp del]

lemma scanLow_stop:
  "scanLow bids pivot low = Some l \<Longrightarrow> \<exists>x. elem_at bids l = Some x \<and> \<not> title x < pivot"
proof (induction bids pivot low rule: scanLow.induct)
  case (1 bids pivot low)
  then show ?case
    by (subst (asm) (2) scanLow.simps) (auto split: option.splits if_splits)
qed

lemma scanHigh_stop:
  "scanHigh bids pivot high = Some h \<Longrightarrow> \<exists>x. elem_at bids h = Some x \<and> \<not> pivot < title x"
proof (induction bids pivot high rule: scanHigh.induct)
  case (1 bids pivot high)
  then show ?case
    by (subst (asm) (2) scanHigh.simps) (auto split: option.splits if_splits)
qed

lemma scanLow_sentinel:
  "scanLow bids pivot low = Some l \<Longrightarrow> low \<le> i \<Longrightarrow> elem_at bids i = Some x \<Longrightarrow>
   \<not> title x < pivot \<Longrightarrow> l \<le> i"
proof (induction bids pivot low rule: scanLow.induct)
  case (1 bids pivot low)
  show ?case
  proof (cases "low = i")
    case True
    with 1 show ?thesis
      by (subst (asm) (2) scanLow.simps) (auto split: option.splits if_splits)
  next
    case False
    with 1 show ?thesis
      by (subst (asm) (2) scanLow.simps) (auto split: option.splits if_splits)
  qed
qed

lemma scanHigh_sentinel:
  "scanHigh bids pivot high = Some h \<Longrightarrow> i \<le> high \<Longrightarrow> elem_at bids i = Some x \<Longrightarrow>
   \<not> pivot < title x \<Longrightarrow> i \<le> h"
proof (induction bids pivot high rule: scanHigh.induct)
  case (1 bids pivot high)
  show ?case
  proof (cases "high = i")
    case True
    with 1 show ?thesis
      by (subst (asm) (2) scanHigh.simps) (auto split: option.splits if_splits)
  next
    case False
    with 1 show ?thesis
      by (subst (asm) (2) scanHigh.simps) (auto split: option.splits if_splits)
  qed
qed

lemma scanLow_below:
  "scanLow bids pivot low = Some l \<Longrightarrow> low \<le> i \<Longrightarrow> i < l \<Longrightarrow>
   \<exists>x. elem_at bids i = Some x \<and> title x < pivot"
proof (induction bids pivot low rule: scanLow.induct)
  case (1 bids pivot low)
  show ?case
  proof (cases "low = i")
    case True
    with 1 show ?thesis
      by (subst (asm) (2) scanLow.simps) (auto split: option.splits if_splits)
  next
    case False
    with 1 show ?thesis
      by (subst (asm) (2) scanLow.simps) (auto split: option.splits if_splits)
  qed
qed

lemma scanHigh_above:
  "scanHigh bids pivot high = Some h \<Longrightarrow> h < i \<Longrightarrow> i \<le> high \<Longrightarrow>
   \<exists>x. elem_at bids i = Some x \<and> pivot < title x"
proof (induction bids pivot high rule: scanHigh.induct)
  case (1 bids pivot high)
  show ?case
  proof (cases "high = i")
    case True
    with 1 show ?thesis
      by (subst (asm) (2) scanHigh.simps) (auto split: option.splits if_splits)
  next
    case False
    with 1 show ?thesis
      by (subst (asm) (2) scanHigh.simps) (auto split: option.splits if_splits)
  qed
qed

lemma swap_at_Some:
  "swap_at bids i j = Some bids' \<Longrightarrow>
     0 \<le> i \<and> i < int (length bids) \<and> 0 \<le> j \<and> j < int (length bids) \<and>
     bids' = bids[nat i := bids ! nat j, nat j := bids ! nat i]"
  by (auto simp: swap_at_def elem_at_def split: option.splits if_splits)

lemma elem_at_swap:
  assumes "swap_at bids i j = Some bids'"
  shows "elem_at bids' k = (if k = j then elem_at bids i else if k = i then elem_at bids j else elem_at bids k)"
  using swap_at_Some[OF assms]
  by (auto simp: elem_at_def nth_list_update nat_eq_iff)

lemma partition_loop_bounds:
  "partition_loop bids pivot low high = Some (bs, h) \<Longrightarrow> lb \<le> low \<Longrightarrow> high \<le> ub \<Longrightarrow>
   lb \<le> i \<Longrightarrow> i \<le> high \<Longrightarrow> elem_at bids i = Some x \<Longrightarrow> \<not> pivot < title x \<Longrightarrow>
   lb \<le> h \<and> h \<le> ub"
proof (induction bids pivot low high arbitrary: i x rule: partition_loop.induct)
  case (1 bids pivot low high)
  from "1.prems"(1) obtain l' h' where
    l': "scanLow bids pivot low = Some l'" and h': "scanHigh bids pivot high = Some h'"
    by (subst (asm) partition_loop.simps) (auto split: option.splits)
  have ll: "low \<le> l'" using l' by (rule scanLow_ge)
  have hh: "h' \<le> high" using h' by (rule scanHigh_le)
  have ih: "i \<le> h'" using h' "1.prems"(5,6,7) by (rule scanHigh_sentinel)
  show ?case
  proof (cases "l' \<ge> h'")
    case True
    with "1.prems"(1) l' h' have "h = h'"
      by (subst (asm) partition_loop.simps) simp
    with ih hh "1.prems" show ?thesis by simp
  next
    case False
    with "1.prems"(1) l' h' obtain bids' where
      sw: "swap_at bids l' h' = Some bids'" and
      ra: "int_add l' 1 = Some (l' + 1)" and rs: "int_sub h' 1 = Some (h' - 1)" and
      rec: "partition_loop bids' pivot (l' + 1) (h' - 1) = Some (bs, h)"
      by (subst (asm) partition_loop.simps) (auto split: option.splits)
    from scanHigh_stop[OF h'] obtain y where y: "elem_at bids h' = Some y" "\<not> pivot < title y"
      by blast
    have e: "elem_at bids' l' = Some y"
      using elem_at_swap[OF sw, of l'] y False by simp
    show ?thesis
      using "1.IH"[OF l' h' _ sw ra rs rec _ _ _ _ e y(2)] False ll hh "1.prems"(2,3)
      by simp
  qed
qed

text \<open>\<open>int partition(vector<Bid>& bids, int begin, int end)\<close>\<close>

definition partition_bids :: "Bid list \<Rightarrow> int \<Rightarrow> int \<Rightarrow> (Bid list \<times> int) option" where
  "partition_bids bids b e =
     (case int_add b e of
        None \<Rightarrow> None
      | Some s \<Rightarrow>
         (case elem_at bids (c_div s 2) of
            None \<Rightarrow> None
          | Some x \<Rightarrow> partition_loop bids (title x) b e))"

lemma scanLow_start: "scanLow bids pivot low = Some l \<Longrightarrow> 0 \<le> low \<and> low < int (length bids)"
  by (subst (asm) scanLow.simps) (auto simp: elem_at_def split: option.splits if_splits)

lemma scanHigh_start: "scanHigh bids pivot high = Some h \<Longrightarrow> 0 \<le> high \<and> high < int (length bids)"
  by (subst (asm) scanHigh.simps) (auto simp: elem_at_def split: option.splits if_splits)

lemma c_div_2_nonneg: "0 \<le> a \<Longrightarrow> c_div a 2 = a div 2"
  by (simp add: c_div_def)

lemma partition_bids_bounds:
  assumes "partition_bids bids b e = Some (bs, h)" and "b < e"
  shows "b \<le> h \<and> h < e"
proof -
  define m where "m = c_div (b + e) 2"
  from assms(1) obtain x where x: "elem_at bids m = Some x"
    and loop: "partition_loop bids (title x) b e = Some (bs, h)"
    by (auto simp: partition_bids_def m_def split: option.splits)
  from loop obtain l' h' where
    l': "scanLow bids (title x) b = Some l'" and h': "scanHigh bids (title x) e = Some h'"
    by (subst (asm) partition_loop.simps) (auto split: option.splits)
  have b0: "0 \<le> b" using scanLow_start[OF l'] by simp
  with assms(2) have m: "m = (b + e) div 2" by (simp add: m_def c_div_2_nonneg)
  with assms(2) have bm: "b \<le> m" "m < e" by auto
  have lm: "l' \<le> m" using l' bm(1) x by (rule scanLow_sentinel) simp
  have mh: "m \<le> h'" using h' _ x by (rule scanHigh_sentinel) (use bm in auto)
  have ll: "b \<le> l'" using l' by (rule scanLow_ge)
  have hh: "h' \<le> e" using h' by (rule scanHigh_le)
  show ?thesis
  proof (cases "l' \<ge> h'")
    case True
    with loop l' h' have "h = h'"
      by (subst (asm) partition_loop.simps) simp
    with True lm mh bm show ?thesis by simp
  next
    case False
    with loop l' h' obtain bids' where
      sw: "swap_at bids l' h' = Some bids'" and
      rec: "partition_loop bids' (title x) (l' + 1) (h' - 1) = Some (bs, h)"
      by (subst (asm) partition_loop.simps) (auto split: option.splits)
    from scanHigh_stop[OF h'] obtain y where y: "elem_at bids h' = Some y" "\<not> title x < title y"
      by blast
    have e: "elem_at bids' l' = Some y"
      using elem_at_swap[OF sw, of l'] y False by simp
    have "b \<le> h \<and> h \<le> e - 1"
      using rec _ _ ll _ e y(2) by (rule partition_loop_bounds) (use ll hh False in auto)
    then show ?thesis by simp
  qed
qed

text \<open>\<open>void quickSort(vector<Bid>& bids, int begin, int end)\<close>\<close>

function quickSort :: "Bid list \<Rightarrow> int \<Rightarrow> int \<Rightarrow> Bid list option" where
  "quickSort bids b e =
     (if b < e then
        (case partition_bids bids b e of
           None \<Rightarrow> None
         | Some (bids1, mid) \<Rightarrow>
            (case quickSort bids1 b mid of
               None \<Rightarrow> None
             | Some bids2 \<Rightarrow>
                (case int_add mid 1 of
                   None \<Rightarrow> None
                 | Some mid' \<Rightarrow> quickSort bids2 mid' e)))
      else Some bids)"
  by pat_completeness auto
termination
proof (relation "measure (\<lambda>(bids, b, e). nat (e - b))", goal_cases)
  case 1
  show ?case by simp
next
  case (2 bids b e p bids1 mid)
  then show ?case using partition_bids_bounds[of bids b e bids1 mid] by simp
next
  case (3 bids b e p bids1 mid bids2 mid')
  then show ?case using partition_bids_bounds[of bids b e bids1 mid]
    by auto
qed

declare quickSort.simps [simp del]

text \<open>
  The call of the driver, \<open>quickSort(bids, 0, bids.size() - 1)\<close>: the subtraction is done
  in \<open>size_t\<close> and wraps for the empty vector; its result is converted to \<open>int\<close>.
\<close>

definition quickSort_driver :: "Bid list \<Rightarrow> Bid list option" where
  "quickSort_driver bids =
     quickSort bids 0 (int_of_size_t (size_t_sub (length bids) 1))"

section \<open>Selection sort\<close>

text \<open>
  The inner loop of \<open>selectionSort\<close>,
  \<open>for (size_t j = pos + 1; j < size; j++) if (bids[j].title < bids[minIndex].title) minIndex = j;\<close>
  with \<open>size\<close> already converted to \<open>size_t\<close> for the comparison. \<open>j\<close> stays below
  \<open>size\<close>, so \<open>j++\<close> never wraps. \<open>minIndex\<close> is an \<open>int\<close>: \<open>minIndex = j\<close> converts the
  \<open>size_t\<close> to \<open>int\<close>.
\<close>

function findMin :: "Bid list \<Rightarrow> nat \<Rightarrow> nat \<Rightarrow> int \<Rightarrow> int option" where
  "findMin bids sz j minIndex =
     (if j < sz then
        (case elem_at bids (int j) of
           None \<Rightarrow> None
         | Some x \<Rightarrow>
            (case elem_at bids minIndex of
               None \<Rightarrow> None
             | Some y \<Rightarrow>
                findMin bids sz (j + 1)
                  (if title x < title y then int_of_size_t j else minIndex)))
      else Some minIndex)"
  by pat_completeness auto
termination
  by (relation "measure (\<lambda>(bids, sz, j, minIndex). sz - j)") auto

declare findMin.simps [simp del]

text \<open>
  The outer loop, \<open>for (size_t pos = 0; pos < size - 1; pos++)\<close>; \<open>limit\<close> is \<open>size - 1\<close>
  converted to \<open>size_t\<close>. \<open>pos\<close> stays below \<open>limit\<close>, so \<open>pos++\<close> and \<open>pos + 1\<close> never wrap.
  \<open>int minIndex = pos\<close> converts the \<open>size_t\<close> to \<open>int\<close>.
\<close>

function selectionLoop :: "Bid list \<Rightarrow> nat \<Rightarrow> nat \<Rightarrow> nat \<Rightarrow> Bid list option" where
  "selectionLoop bids limit sz pos =
     (if pos < limit then
        (case findMin bids sz (pos + 1) (int_of_size_t pos) of
           None \<Rightarrow> None
         | Some minIndex \<Rightarrow>
            (case swap_at bids (int pos) minIndex of
               None \<Rightarrow> None
             | Some bids' \<Rightarrow> selectionLoop bids' limit sz (pos + 1)))
      else Some bids)"
  by pat_completeness auto
termination
  by (relation "measure (\<lambda>(bids, limit, sz, pos). limit - pos)") auto

declare selectionLoop.simps [simp del]

text \<open>
  \<open>void selectionSort(vector<Bid>& bids)\<close>: \<open>int size = bids.size()\<close> converts the size to
  \<open>int\<close>, and both loop conditions compare a \<open>size_t\<close> with an \<open>int\<close>, which converts the
  \<open>int\<close> to \<open>size_t\<close>.
\<close>

definition selectionSort :: "Bid list \<Rightarrow> Bid list option" where
  "selectionSort bids =
     (let sz = int_of_size_t (length bids)
      in case int_sub sz 1 of
           None \<Rightarrow> None
         | Some sz1 \<Rightarrow> selectionLoop bids (size_t_of_int sz1) (size_t_of_int sz) 0)"

section \<open>Notions used in the proofs\<close>

text \<open>The records held at the positions \<open>b..e\<close> of a vector.\<close>

definition range_elems :: "Bid list \<Rightarrow> int \<Rightarrow> int \<Rightarrow> Bid set" where
  "range_elems bids b e = {x. \<exists>i. b \<le> i \<and> i \<le> e \<and> elem_at bids i = Some x}"

text \<open>
  \<open>perm_in bids bs b e\<close>: the vector \<open>bs\<close> holds the records of \<open>bids\<close>, moved only
  inside the positions \<open>b..e\<close>.
\<close>

definition perm_in :: "Bid list \<Rightarrow> Bid list \<Rightarrow> int \<Rightarrow> int \<Rightarrow> bool" where
  "perm_in bids bs b e \<longleftrightarrow>
     length bs = length bids \<and> mset bs = mset bids \<and>
     (\<forall>i. i < b \<or> e < i \<longrightarrow> elem_at bs i = elem_at bids i) \<and>
     range_elems bs b e \<subseteq> range_elems bids b e"

text \<open>The positions \<open>b..e\<close> are in ascending order of title.\<close>

definition sorted_in :: "Bid list \<Rightarrow> int \<Rightarrow> int \<Rightarrow> bool" where
  "sorted_in bs b e \<longleftrightarrow>
     (\<forall>i j x y. b \<le> i \<and> i \<le> j \<and> j \<le> e \<and> elem_at bs i = Some x \<and> elem_at bs j = Some y
        \<longrightarrow> title x \<le> title y)"

text \<open>Every record before \<open>pos\<close> has a title at most that of every record after it.\<close>

definition prefix_sorted :: "Bid list \<Rightarrow> nat \<Rightarrow> bool" where
  "prefix_sorted bids pos \<longleftrightarrow>
     (\<forall>i j. i < pos \<and> i \<le> j \<and> j < length bids \<longrightarrow> title (bids ! i) \<le> title (bids ! j))"

text \<open>The records of a vector that carry the title \<open>t\<close>, in the order of the vector.\<close>

definition with_title :: "string \<Rightarrow> Bid list \<Rightarrow> Bid list" where
  "with_title t bids = filter (\<lambda>b. title b = t) bids"

section \<open>Example records\<close>

definition bid_A :: Bid where
  "bid_A = \<lparr>bidId = ''002'', title = ''Arch'', fund = ''FundB'', amount = Finite 100\<rparr>"

definition bid_B1 :: Bid where
  "bid_B1 = \<lparr>bidId = ''001'', title = ''Bridge'', fund = ''FundA'', amount = Finite 500\<rparr>"

definition bid_B2 :: Bid where
  "bid_B2 = \<lparr>bidId = ''003'', title = ''Bridge'', fund = ''FundC'', amount = Finite 250\<rparr>"

definition bid_C :: Bid where
  "bid_C = \<lparr>bidId = ''004'', title = ''Culvert'', fund = ''FundA'', amount = Finite 75\<rparr>"

text \<open>Rows of a file, as the parser hands them to \<open>loadBids\<close>.\<close>

definition row_Bridge :: row where
  "row_Bridge = row_of [''Bridge'', ''001'', [], [], ''$500.00'', [], [], [], ''FundA'']"

definition row_Arch :: row where
  "row_Arch = row_of [''Arch'', ''002'', [], [], ''$100.00'', [], [], [], ''FundB'']"

definition row_short :: row where
  "row_short = row_of [''Culvert'', ''004'']"

section \<open>Properties of quicksort\<close>

lemma perm_in_refl: "perm_in bids bids b e"
  by (simp add: perm_in_def)

lemma perm_in_trans:
  "perm_in xs ys b e \<Longrightarrow> perm_in ys zs b e \<Longrightarrow> perm_in xs zs b e"
  by (auto simp: perm_in_def)

lemma perm_in_widen:
  assumes "perm_in xs ys b e" "b' \<le> b" "e \<le> e'"
  shows "perm_in xs ys b' e'"
proof -
  have "range_elems ys b' e' \<subseteq> range_elems xs b' e'"
  proof
    fix x assume "x \<in> range_elems ys b' e'"
    then obtain i where i: "b' \<le> i" "i \<le> e'" "elem_at ys i = Some x"
      by (auto simp: range_elems_def)
    show "x \<in> range_elems xs b' e'"
    proof (cases "b \<le> i \<and> i \<le> e")
      case True
      with i have "x \<in> range_elems ys b e" by (auto simp: range_elems_def)
      with assms(1) have "x \<in> range_elems xs b e" by (auto simp: perm_in_def)
      then obtain k where "b \<le> k" "k \<le> e" "elem_at xs k = Some x"
        by (auto simp: range_elems_def)
      with assms(2,3) have "b' \<le> k \<and> k \<le> e' \<and> elem_at xs k = Some x" by simp
      then show ?thesis unfolding range_elems_def by blast
    next
      case False
      with assms(1) have "elem_at ys i = elem_at xs i" by (auto simp: perm_in_def)
      with i show ?thesis by (auto simp: range_elems_def)
    qed
  qed
  with assms show ?thesis by (auto simp: perm_in_def)
qed

lemma mset_swap_at: "swap_at bids i j = Some bids' \<Longrightarrow> mset bids' = mset bids"
proof -
  assume "swap_at bids i j = Some bids'"
  from swap_at_Some[OF this] have
    "nat i < length bids" "nat j < length bids"
    "bids' = bids[nat i := bids ! nat j, nat j := bids ! nat i]"
    by auto
  then show ?thesis by (simp add: mset_swap)
qed

lemma perm_in_swap:
  assumes "swap_at bids i j = Some bids'" "b \<le> i" "i \<le> e" "b \<le> j" "j \<le> e"
  shows "perm_in bids bids' b e"
proof -
  have len: "length bids' = length bids" using swap_at_Some[OF assms(1)] by simp
  have i: "elem_at bids i \<noteq> None" "elem_at bids j \<noteq> None"
    using swap_at_Some[OF assms(1)] by (auto simp: elem_at_def)
  have "range_elems bids' b e \<subseteq> range_elems bids b e"
    using assms(2-) by (auto simp: range_elems_def elem_at_swap[OF assms(1)] split: if_splits)
  moreover have "\<forall>k. k < b \<or> e < k \<longrightarrow> elem_at bids' k = elem_at bids k"
    using assms(2-) by (auto simp: elem_at_swap[OF assms(1)])
  ultimately show ?thesis
    using len mset_swap_at[OF assms(1)] by (simp add: perm_in_def)
qed

lemma partition_loop_post:
  "partition_loop bids pivot low high = Some (bs, h) \<Longrightarrow> b \<le> low \<Longrightarrow> high \<le> e \<Longrightarrow>
   (\<forall>i x. b \<le> i \<and> i < low \<and> elem_at bids i = Some x \<longrightarrow> title x \<le> pivot) \<Longrightarrow>
   (\<forall>i x. high < i \<and> i \<le> e \<and> elem_at bids i = Some x \<longrightarrow> pivot \<le> title x) \<Longrightarrow>
   perm_in bids bs b e \<and>
   (\<forall>i x. b \<le> i \<and> i \<le> h \<and> elem_at bs i = Some x \<longrightarrow> title x \<le> pivot) \<and>
   (\<forall>i x. h < i \<and> i \<le> e \<and> elem_at bs i = Some x \<longrightarrow> pivot \<le> title x)"
proof (induction bids pivot low high rule: partition_loop.induct)
  case (1 bids pivot low high)
  from "1.prems"(1) obtain l' h' where
    l': "scanLow bids pivot low = Some l'" and h': "scanHigh bids pivot high = Some h'"
    by (subst (asm) partition_loop.simps) (auto split: option.splits)
  have ll: "low \<le> l'" using l' by (rule scanLow_ge)
  have hh: "h' \<le> high" using h' by (rule scanHigh_le)
  from scanLow_stop[OF l'] obtain xl where xl: "elem_at bids l' = Some xl" "\<not> title xl < pivot"
    by blast
  from scanHigh_stop[OF h'] obtain xh where xh: "elem_at bids h' = Some xh" "\<not> pivot < title xh"
    by blast
  have left: "title x \<le> pivot" if "b \<le> i" "i < l'" "elem_at bids i = Some x" for i x
  proof (cases "i < low")
    case True
    with that "1.prems"(4) show ?thesis by blast
  next
    case False
    with scanLow_below[OF l', of i] that show ?thesis by auto
  qed
  have right: "pivot \<le> title x" if "h' < i" "i \<le> e" "elem_at bids i = Some x" for i x
  proof (cases "high < i")
    case True
    with that "1.prems"(5) show ?thesis by blast
  next
    case False
    with scanHigh_above[OF h', of i] that show ?thesis by auto
  qed
  show ?case
  proof (cases "l' \<ge> h'")
    case True
    with "1.prems"(1) l' h' have res: "bs = bids" "h = h'"
      by (subst (asm) partition_loop.simps, simp)+
    have "title x \<le> pivot" if "b \<le> i" "i \<le> h'" "elem_at bids i = Some x" for i x
    proof (cases "i = h'")
      case True
      with that xh show ?thesis by simp
    next
      case False
      with that True have "i < l'" by simp
      with that show ?thesis using left by blast
    qed
    with right res show ?thesis by (auto simp: perm_in_refl)
  next
    case False
    with "1.prems"(1) l' h' obtain bids' where
      sw: "swap_at bids l' h' = Some bids'" and
      ra: "int_add l' 1 = Some (l' + 1)" and rs: "int_sub h' 1 = Some (h' - 1)" and
      rec: "partition_loop bids' pivot (l' + 1) (h' - 1) = Some (bs, h)"
      by (subst (asm) partition_loop.simps) (auto split: option.splits)
    have "title x \<le> pivot" if "b \<le> i" "i < l' + 1" "elem_at bids' i = Some x" for i x
    proof (cases "i = l'")
      case True
      with that False xh show ?thesis by (simp add: elem_at_swap[OF sw])
    next
      case ne: False
      with that False have "i < l'" "elem_at bids i = Some x"
        by (simp_all add: elem_at_swap[OF sw])
      with that show ?thesis using left by blast
    qed
    then have inv1:
      "\<forall>i x. b \<le> i \<and> i < l' + 1 \<and> elem_at bids' i = Some x \<longrightarrow> title x \<le> pivot"
      by blast
    have "pivot \<le> title x" if "h' - 1 < i" "i \<le> e" "elem_at bids' i = Some x" for i x
    proof (cases "i = h'")
      case True
      with that False xl show ?thesis by (simp add: elem_at_swap[OF sw])
    next
      case ne: False
      with that False have "h' < i" "elem_at bids i = Some x"
        by (simp_all add: elem_at_swap[OF sw])
      with that show ?thesis using right by blast
    qed
    then have inv2:
      "\<forall>i x. h' - 1 < i \<and> i \<le> e \<and> elem_at bids' i = Some x \<longrightarrow> pivot \<le> title x"
      by blast
    have "perm_in bids' bs b e \<and>
      (\<forall>i x. b \<le> i \<and> i \<le> h \<and> elem_at bs i = Some x \<longrightarrow> title x \<le> pivot) \<and>
      (\<forall>i x. h < i \<and> i \<le> e \<and> elem_at bs i = Some x \<longrightarrow> pivot \<le> title x)"
      using "1.IH"[OF l' h' _ sw ra rs rec _ _ inv1 inv2] False ll hh "1.prems"(2,3) by simp
    moreover have "perm_in bids bids' b e"
      using sw by (rule perm_in_swap) (use False ll hh "1.prems"(2,3) in auto)
    ultimately show ?thesis by (blast intro: perm_in_trans)
  qed
qed

lemma partition_bids_post:
  assumes "partition_bids bids b e = Some (bs, h)"
  shows "\<exists>pivot. perm_in bids bs b e \<and>
     (\<forall>i x. b \<le> i \<and> i \<le> h \<and> elem_at bs i = Some x \<longrightarrow> title x \<le> pivot) \<and>
     (\<forall>i x. h < i \<and> i \<le> e \<and> elem_at bs i = Some x \<longrightarrow> pivot \<le> title x)"
proof -
  from assms obtain x :: Bid where
    loop: "partition_loop bids (title x) b e = Some (bs, h)"
    by (auto simp: partition_bids_def split: option.splits)
  have "perm_in bids bs b e \<and>
     (\<forall>i y. b \<le> i \<and> i \<le> h \<and> elem_at bs i = Some y \<longrightarrow> title y \<le> title x) \<and>
     (\<forall>i y. h < i \<and> i \<le> e \<and> elem_at bs i = Some y \<longrightarrow> title x \<le> title y)"
    using loop by (rule partition_loop_post) auto
  then show ?thesis by blast
qed

lemma scanLow_Some:
  "low \<le> i \<Longrightarrow> 0 \<le> low \<Longrightarrow> elem_at bids i = Some x \<Longrightarrow> \<not> title x < pivot \<Longrightarrow>
   length bids < 2 ^ 31 \<Longrightarrow> \<exists>l. scanLow bids pivot low = Some l"
proof (induction bids pivot low rule: scanLow.induct)
  case (1 bids pivot low)
  from "1.prems" have inb: "0 \<le> low \<and> low < int (length bids)"
    by (auto simp: elem_at_def split: if_splits)
  then obtain y where y: "elem_at bids low = Some y" by (auto simp: elem_at_def)
  from "1.prems"(5) have len: "int (length bids) < 2 ^ 31" by simp
  show ?case
  proof (cases "title y < pivot")
    case True
    with y "1.prems" have "low \<noteq> i" by auto
    with "1.prems" have le: "low + 1 \<le> i" by simp
    from inb len have ra: "int_add low 1 = Some (low + 1)" by (simp add: int_range_def)
    from "1.IH"[OF y True ra le _ "1.prems"(3,4,5)] inb
    obtain l where "scanLow bids pivot (low + 1) = Some l" by auto
    with y True ra show ?thesis by (subst scanLow.simps) simp
  next
    case False
    with y show ?thesis by (subst scanLow.simps) simp
  qed
qed

lemma scanHigh_Some:
  "i \<le> high \<Longrightarrow> high < int (length bids) \<Longrightarrow> elem_at bids i = Some x \<Longrightarrow>
   \<not> pivot < title x \<Longrightarrow> length bids < 2 ^ 31 \<Longrightarrow> \<exists>h. scanHigh bids pivot high = Some h"
proof (induction bids pivot high rule: scanHigh.induct)
  case (1 bids pivot high)
  from "1.prems" have inb: "0 \<le> high \<and> high < int (length bids)"
    by (auto simp: elem_at_def split: if_splits)
  then obtain y where y: "elem_at bids high = Some y" by (auto simp: elem_at_def)
  from "1.prems"(5) have len: "int (length bids) < 2 ^ 31" by simp
  show ?case
  proof (cases "pivot < title y")
    case True
    with y "1.prems" have "high \<noteq> i" by auto
    with "1.prems" have le: "i \<le> high - 1" by simp
    from inb len have rs: "int_sub high 1 = Some (high - 1)" by (simp add: int_range_def)
    from "1.IH"[OF y True rs le _ "1.prems"(3,4,5)] inb
    obtain h where "scanHigh bids pivot (high - 1) = Some h" by auto
    with y True rs show ?thesis by (subst scanHigh.simps) simp
  next
    case False
    with y show ?thesis by (subst scanHigh.simps) simp
  qed
qed

lemma partition_loop_Some:
  "0 \<le> low \<Longrightarrow> high < int (length bids) \<Longrightarrow>
   low \<le> j \<Longrightarrow> elem_at bids j = Some xj \<Longrightarrow> \<not> title xj < pivot \<Longrightarrow>
   i \<le> high \<Longrightarrow> elem_at bids i = Some xi \<Longrightarrow> \<not> pivot < title xi \<Longrightarrow>
   length bids < 2 ^ 31 \<Longrightarrow> \<exists>r. partition_loop bids pivot low high = Some r"
proof (induction bids pivot low high arbitrary: i j xi xj rule: partition_loop.induct)
  case (1 bids pivot low high)
  from scanLow_Some[OF "1.prems"(3,1,4,5,9)] obtain l' where
    l': "scanLow bids pivot low = Some l'" by blast
  from scanHigh_Some[OF "1.prems"(6,2,7,8,9)] obtain h' where
    h': "scanHigh bids pivot high = Some h'" by blast
  have ll: "low \<le> l'" using l' by (rule scanLow_ge)
  have hh: "h' \<le> high" using h' by (rule scanHigh_le)
  from "1.prems"(9) have len: "int (length bids) < 2 ^ 31" by simp
  from scanLow_stop[OF l'] obtain xl where xl: "elem_at bids l' = Some xl" "\<not> title xl < pivot"
    by blast
  from scanHigh_stop[OF h'] obtain xh where xh: "elem_at bids h' = Some xh" "\<not> pivot < title xh"
    by blast
  show ?case
  proof (cases "l' \<ge> h'")
    case True
    with l' h' show ?thesis by (subst partition_loop.simps) simp
  next
    case False
    from xl xh obtain bids' where sw: "swap_at bids l' h' = Some bids'"
      by (auto simp: swap_at_def)
    have len': "length bids' = length bids" using swap_at_Some[OF sw] by simp
    from xl len have ra: "int_add l' 1 = Some (l' + 1)"
      by (auto simp: elem_at_def int_range_def split: if_splits)
    from xh len have rs: "int_sub h' 1 = Some (h' - 1)"
      by (auto simp: elem_at_def int_range_def split: if_splits)
    have e1: "elem_at bids' h' = Some xl" using xl by (simp add: elem_at_swap[OF sw])
    have e2: "elem_at bids' l' = Some xh" using xh False by (simp add: elem_at_swap[OF sw])
    have "\<exists>r. partition_loop bids' pivot (l' + 1) (h' - 1) = Some r"
      using "1.IH"[OF l' h' _ sw ra rs _ _ _ e1 xl(2) _ e2 xh(2)] False ll hh "1.prems"(1,2,9) len'
      by simp
    with l' h' False sw ra rs show ?thesis by (subst partition_loop.simps) simp
  qed
qed

lemma partition_bids_Some:
  assumes "0 \<le> b" "b \<le> e" "e < int (length bids)" "length bids \<le> 2 ^ 30"
  shows "\<exists>bs h. partition_bids bids b e = Some (bs, h)"
proof -
  from assms(4) have len: "int (length bids) \<le> 2 ^ 30" by simp
  with assms have ra: "int_add b e = Some (b + e)" by (simp add: int_range_def)
  define m where "m = c_div (b + e) 2"
  from assms have m: "m = (b + e) div 2" by (simp add: m_def c_div_2_nonneg)
  with assms have bm: "b \<le> m" "m \<le> e" by auto
  with assms obtain x where x: "elem_at bids m = Some x" by (auto simp: elem_at_def)
  from assms(4) have len': "length bids < 2 ^ 31"
    by (rule le_less_trans) simp
  have "\<exists>r. partition_loop bids (title x) b e = Some r"
    using assms(1,3) bm(1) x _ bm(2) x _ len' by (rule partition_loop_Some) simp_all
  with x ra show ?thesis by (auto simp: partition_bids_def m_def)
qed

lemma quickSort_post:
  "0 \<le> b \<Longrightarrow> e < int (length bids) \<Longrightarrow> length bids \<le> 2 ^ 30 \<Longrightarrow>
   \<exists>bs. quickSort bids b e = Some bs \<and> perm_in bids bs b e \<and> sorted_in bs b e"
proof (induction bids b e rule: quickSort.induct)
  case (1 bids b e)
  show ?case
  proof (cases "b < e")
    case False
    then have "quickSort bids b e = Some bids" by (subst quickSort.simps) simp
    moreover have "title x \<le> title y"
      if "b \<le> i" "i \<le> j" "j \<le> e" "elem_at bids i = Some x" "elem_at bids j = Some y"
      for i j x y
    proof -
      from False that have "i = j" by simp
      with that show ?thesis by simp
    qed
    then have "sorted_in bids b e" unfolding sorted_in_def by blast
    ultimately show ?thesis by (simp add: perm_in_refl)
  next
    case True
    with "1.prems" obtain bids1 mid where p: "partition_bids bids b e = Some (bids1, mid)"
      using partition_bids_Some[of b e bids] by auto
    from partition_bids_bounds[OF p True] have mid: "b \<le> mid" "mid < e" by simp_all
    from partition_bids_post[OF p] obtain pivot where
      perm1: "perm_in bids bids1 b e" and
      le: "\<forall>i x. b \<le> i \<and> i \<le> mid \<and> elem_at bids1 i = Some x \<longrightarrow> title x \<le> pivot" and
      ge: "\<forall>i x. mid < i \<and> i \<le> e \<and> elem_at bids1 i = Some x \<longrightarrow> pivot \<le> title x"
      by blast
    have len1: "length bids1 = length bids" using perm1 by (simp add: perm_in_def)
    from "1.IH"(1)[OF True p refl "1.prems"(1)] mid "1.prems"(2,3) len1
    obtain bids2 where q1: "quickSort bids1 b mid = Some bids2"
      and perm2: "perm_in bids1 bids2 b mid" and sorted2: "sorted_in bids2 b mid"
      by auto
    have len2: "length bids2 = length bids" using perm2 len1 by (simp add: perm_in_def)
    from "1.prems"(3) have "int (length bids) \<le> 2 ^ 30" by simp
    with mid "1.prems"(1,2) have ra: "int_add mid 1 = Some (mid + 1)"
      by (simp add: int_range_def)
    from "1.IH"(2)[OF True p refl q1 ra] mid "1.prems" len2
    obtain bs where q2: "quickSort bids2 (mid + 1) e = Some bs"
      and perm3: "perm_in bids2 bs (mid + 1) e" and sorted3: "sorted_in bs (mid + 1) e"
      by auto
    have res: "quickSort bids b e = Some bs"
      using True p q1 q2 ra by (subst quickSort.simps) simp
    have perm: "perm_in bids bs b e"
    proof -
      have "perm_in bids1 bids2 b e" using perm2 mid by (auto intro: perm_in_widen)
      moreover have "perm_in bids2 bs b e" using perm3 mid by (auto intro: perm_in_widen)
      ultimately show ?thesis using perm1 by (blast intro: perm_in_trans)
    qed
    have left: "title x \<le> pivot" if "b \<le> i" "i \<le> mid" "elem_at bs i = Some x" for i x
    proof -
      from that perm3 have "elem_at bids2 i = Some x" by (auto simp: perm_in_def)
      with that have "b \<le> i \<and> i \<le> mid \<and> elem_at bids2 i = Some x" by simp
      then have "x \<in> range_elems bids2 b mid" unfolding range_elems_def by blast
      with perm2 have "x \<in> range_elems bids1 b mid" by (auto simp: perm_in_def)
      with le show ?thesis by (auto simp: range_elems_def)
    qed
    have right: "pivot \<le> title x" if "mid < i" "i \<le> e" "elem_at bs i = Some x" for i x
    proof -
      from that have "mid + 1 \<le> i \<and> i \<le> e \<and> elem_at bs i = Some x" by simp
      then have "x \<in> range_elems bs (mid + 1) e" unfolding range_elems_def by blast
      with perm3 have "x \<in> range_elems bids2 (mid + 1) e" by (auto simp: perm_in_def)
      then obtain k where k: "mid + 1 \<le> k" "k \<le> e" "elem_at bids2 k = Some x"
        by (auto simp: range_elems_def)
      with perm2 mid have "elem_at bids1 k = Some x" by (auto simp: perm_in_def)
      with k have "mid < k \<and> k \<le> e \<and> elem_at bids1 k = Some x" by simp
      with ge show ?thesis by blast
    qed
    have "title x \<le> title y"
      if "b \<le> i" "i \<le> j" "j \<le> e" "elem_at bs i = Some x" "elem_at bs j = Some y" for i j x y
    proof -
      consider "j \<le> mid" | "mid < i" | "i \<le> mid" "mid < j" by linarith
      then show ?thesis
      proof cases
        case 1
        with that perm3 have "elem_at bids2 i = Some x" "elem_at bids2 j = Some y"
          by (auto simp: perm_in_def)
        with sorted2 that 1 show ?thesis unfolding sorted_in_def by blast
      next
        case 2
        with sorted3 that show ?thesis unfolding sorted_in_def
          by (meson add1_zle_eq)
      next
        case 3
        with that left[of i x] right[of j y] show ?thesis by simp
      qed
    qed
    then have "sorted_in bs b e" unfolding sorted_in_def by blast
    with res perm show ?thesis by simp
  qed
qed

lemma elem_at_nat: "i < length bids \<Longrightarrow> elem_at bids (int i) = Some (bids ! i)"
  by (simp add: elem_at_def)

lemma sorted_in_full:
  assumes "sorted_in bs 0 (int (length bs) - 1)"
  shows "sorted (map title bs)"
proof -
  have "map title bs ! i \<le> map title bs ! j" if "i \<le> j" "j < length (map title bs)" for i j
  proof -
    from that have "elem_at bs (int i) = Some (bs ! i)" "elem_at bs (int j) = Some (bs ! j)"
      by (simp_all add: elem_at_nat)
    moreover from that have "0 \<le> int i \<and> int i \<le> int j \<and> int j \<le> int (length bs) - 1" by simp
    ultimately have "title (bs ! i) \<le> title (bs ! j)"
      using assms unfolding sorted_in_def by blast
    with that show ?thesis by simp
  qed
  then show ?thesis by (simp add: sorted_iff_nth_mono)
qed

lemma quickSort_full:
  assumes "length bids \<le> 2 ^ 30"
  shows "\<exists>bs. quickSort bids 0 (int (length bids) - 1) = Some bs \<and> length bs = length bids \<and>
        mset bs = mset bids \<and> sorted (map title bs)"
proof -
  from quickSort_post[of 0 "int (length bids) - 1" bids] assms obtain bs where
    bs: "quickSort bids 0 (int (length bids) - 1) = Some bs"
      "perm_in bids bs 0 (int (length bids) - 1)" "sorted_in bs 0 (int (length bids) - 1)"
    by auto
  from bs(2) have len: "length bs = length bids" and ms: "mset bs = mset bids"
    by (simp_all add: perm_in_def)
  from bs(3) len have "sorted (map title bs)" by (simp add: sorted_in_full)
  with bs(1) len ms show ?thesis by simp
qed

section \<open>Properties of selection sort\<close>

lemma int_of_size_t_small: "n < 2 ^ 31 \<Longrightarrow> int_of_size_t n = int n"
proof -
  assume "n < 2 ^ 31"
  then have "int n < 2 ^ 31" by simp
  then show ?thesis by (simp add: int_of_size_t_def)
qed

lemma findMin_post:
  assumes "sz \<le> length bids" "pos \<le> m" "m < j" "j \<le> sz" "length bids < 2 ^ 31"
    "\<forall>k. pos \<le> k \<and> k < j \<longrightarrow> title (bids ! m) \<le> title (bids ! k)"
    "\<forall>k. pos \<le> k \<and> k < m \<longrightarrow> title (bids ! m) < title (bids ! k)"
  shows "\<exists>r. findMin bids sz j (int m) = Some (int r) \<and> pos \<le> r \<and> r < sz \<and>
           (\<forall>k. pos \<le> k \<and> k < sz \<longrightarrow> title (bids ! r) \<le> title (bids ! k)) \<and>
           (\<forall>k. pos \<le> k \<and> k < r \<longrightarrow> title (bids ! r) < title (bids ! k))"
  using assms
proof (induction "sz - j" arbitrary: j m)
  case 0
  then have "j = sz" by simp
  then have "findMin bids sz j (int m) = Some (int m)" by (subst findMin.simps) simp
  with 0 \<open>j = sz\<close> show ?case by auto
next
  case (Suc d)
  then have j: "j < sz" by simp
  with Suc.prems have inb: "j < length bids" "m < length bids" by simp_all
  let ?m' = "if title (bids ! j) < title (bids ! m) then j else m"
  from inb(1) Suc.prems(5) have "j < 2 ^ 31" by simp
  then have conv: "int_of_size_t j = int j" by (rule int_of_size_t_small)
  have unfold: "findMin bids sz j (int m) = findMin bids sz (j + 1) (int ?m')"
    using j inb by (subst findMin.simps) (simp add: elem_at_def conv)
  have d: "d = sz - (j + 1)" using Suc.hyps(2) by simp
  have "\<exists>r. findMin bids sz (j + 1) (int ?m') = Some (int r) \<and> pos \<le> r \<and> r < sz \<and>
           (\<forall>k. pos \<le> k \<and> k < sz \<longrightarrow> title (bids ! r) \<le> title (bids ! k)) \<and>
           (\<forall>k. pos \<le> k \<and> k < r \<longrightarrow> title (bids ! r) < title (bids ! k))"
  proof (cases "title (bids ! j) < title (bids ! m)")
    case True
    have a: "\<forall>k. pos \<le> k \<and> k < j + 1 \<longrightarrow> title (bids ! j) \<le> title (bids ! k)"
    proof (intro allI impI)
      fix k assume k: "pos \<le> k \<and> k < j + 1"
      show "title (bids ! j) \<le> title (bids ! k)"
      proof (cases "k = j")
        case False
        with k have "title (bids ! m) \<le> title (bids ! k)" using Suc.prems(6) by simp
        with True show ?thesis by simp
      qed simp
    qed
    have b: "\<forall>k. pos \<le> k \<and> k < j \<longrightarrow> title (bids ! j) < title (bids ! k)"
    proof (intro allI impI)
      fix k assume k: "pos \<le> k \<and> k < j"
      then have "title (bids ! m) \<le> title (bids ! k)" using Suc.prems(6) by simp
      with True show "title (bids ! j) < title (bids ! k)" by simp
    qed
    have "pos \<le> j" using Suc.prems(2,3) by simp
    from Suc.hyps(1)[OF d Suc.prems(1) this _ _ Suc.prems(5) a b] j True show ?thesis by simp
  next
    case False
    have a: "\<forall>k. pos \<le> k \<and> k < j + 1 \<longrightarrow> title (bids ! m) \<le> title (bids ! k)"
    proof (intro allI impI)
      fix k assume k: "pos \<le> k \<and> k < j + 1"
      show "title (bids ! m) \<le> title (bids ! k)"
      proof (cases "k = j")
        case True
        with False show ?thesis by simp
      next
        case ne: False
        with k show ?thesis using Suc.prems(6) by simp
      qed
    qed
    from Suc.hyps(1)[OF d Suc.prems(1,2) _ _ Suc.prems(5) a Suc.prems(7)] j Suc.prems(3) False
    show ?thesis by simp
  qed
  with unfold show ?case by simp
qed

lemma swap_at_nat:
  "i < length bids \<Longrightarrow> j < length bids \<Longrightarrow>
   swap_at bids (int i) (int j) = Some (bids[i := bids ! j, j := bids ! i])"
  by (simp add: swap_at_def elem_at_def)

lemma selectionLoop_post:
  assumes "bids \<noteq> []" "pos \<le> length bids - 1" "prefix_sorted bids pos"
    "length bids < 2 ^ 31"
  shows "\<exists>bs. selectionLoop bids (length bids - 1) (length bids) pos = Some bs \<and>
           length bs = length bids \<and> mset bs = mset bids \<and> sorted (map title bs)"
  using assms
proof (induction "length bids - 1 - pos" arbitrary: bids pos)
  case 0
  then have pos: "pos = length bids - 1" by simp
  then have res: "selectionLoop bids (length bids - 1) (length bids) pos = Some bids"
    by (subst selectionLoop.simps) simp
  have "map title bids ! i \<le> map title bids ! j" if "i \<le> j" "j < length (map title bids)" for i j
  proof (cases "i < pos")
    case True
    with that "0.prems"(3) show ?thesis by (simp add: prefix_sorted_def)
  next
    case False
    with that pos have "i = j" by simp
    then show ?thesis by simp
  qed
  then have "sorted (map title bids)" by (simp add: sorted_iff_nth_mono)
  with res show ?case by simp
next
  case (Suc d)
  let ?n = "length bids"
  from Suc.hyps(2) have pos: "pos < ?n - 1" by simp
  have "\<exists>r. findMin bids ?n (pos + 1) (int pos) = Some (int r) \<and> pos \<le> r \<and> r < ?n \<and>
           (\<forall>k. pos \<le> k \<and> k < ?n \<longrightarrow> title (bids ! r) \<le> title (bids ! k)) \<and>
           (\<forall>k. pos \<le> k \<and> k < r \<longrightarrow> title (bids ! r) < title (bids ! k))"
  proof (rule findMin_post)
    show "\<forall>k. pos \<le> k \<and> k < pos + 1 \<longrightarrow> title (bids ! pos) \<le> title (bids ! k)"
    proof (intro allI impI)
      fix k assume "pos \<le> k \<and> k < pos + 1"
      then have "k = pos" by simp
      then show "title (bids ! pos) \<le> title (bids ! k)" by simp
    qed
  qed (use pos Suc.prems in auto)
  then obtain r where r: "findMin bids ?n (pos + 1) (int pos) = Some (int r)" "pos \<le> r" "r < ?n"
    and rmin: "\<forall>k. pos \<le> k \<and> k < ?n \<longrightarrow> title (bids ! r) \<le> title (bids ! k)"
    by blast
  define bids' where "bids' = bids[pos := bids ! r, r := bids ! pos]"
  have sw: "swap_at bids (int pos) (int r) = Some bids'"
    using pos r by (simp add: swap_at_nat bids'_def)
  have len: "length bids' = ?n" by (simp add: bids'_def)
  have ms: "mset bids' = mset bids"
    using pos r by (simp add: bids'_def mset_swap)
  have nth': "bids' ! k = (if k = r then bids ! pos else if k = pos then bids ! r else bids ! k)"
    if "k < ?n" for k
    using that pos r by (auto simp: bids'_def nth_list_update)
  have inv: "prefix_sorted bids' (pos + 1)"
    unfolding prefix_sorted_def
  proof (intro allI impI)
    fix i j assume ij: "i < pos + 1 \<and> i \<le> j \<and> j < length bids'"
    show "title (bids' ! i) \<le> title (bids' ! j)"
    proof (cases "i < pos")
      case True
      with r have i: "bids' ! i = bids ! i" using nth'[of i] ij len by simp
      have "\<exists>j'. i \<le> j' \<and> j' < ?n \<and> bids' ! j = bids ! j'"
      proof (cases "j = r")
        case True
        with nth'[of j] ij len have "bids' ! j = bids ! pos" by simp
        with \<open>i < pos\<close> pos show ?thesis by (intro exI[of _ pos]) simp
      next
        case jr: False
        show ?thesis
        proof (cases "j = pos")
          case True
          with nth'[of j] ij len jr have "bids' ! j = bids ! r" by simp
          with \<open>i < pos\<close> r show ?thesis by (intro exI[of _ r]) simp
        next
          case False
          with nth'[of j] ij len jr have "bids' ! j = bids ! j" by simp
          with ij len show ?thesis by (intro exI[of _ j]) simp
        qed
      qed
      then obtain j' where j': "i \<le> j'" "j' < ?n" "bids' ! j = bids ! j'" by blast
      with True Suc.prems(3) have "title (bids ! i) \<le> title (bids ! j')"
        by (simp add: prefix_sorted_def)
      with i j' show ?thesis by simp
    next
      case False
      with ij have ip: "i = pos" by simp
      have i: "title (bids' ! i) = title (bids ! r)"
        using nth'[of pos] pos ip by (cases "pos = r") simp_all
      have "\<exists>j'. pos \<le> j' \<and> j' < ?n \<and> bids' ! j = bids ! j'"
      proof (cases "j = r")
        case True
        with nth'[of j] ij len have "bids' ! j = bids ! pos" by simp
        with pos show ?thesis by (intro exI[of _ pos]) simp
      next
        case jr: False
        show ?thesis
        proof (cases "j = pos")
          case True
          with nth'[of j] ij len jr have "bids' ! j = bids ! r" by simp
          with r show ?thesis by (intro exI[of _ r]) simp
        next
          case False
          with nth'[of j] ij len jr have "bids' ! j = bids ! j" by simp
          with ij ip len show ?thesis by (intro exI[of _ j]) simp
        qed
      qed
      then obtain j' where j': "pos \<le> j'" "j' < ?n" "bids' ! j = bids ! j'" by blast
      with rmin have "title (bids ! r) \<le> title (bids ! j')" by simp
      with i j' show ?thesis by simp
    qed
  qed
  have d: "d = length bids' - 1 - (pos + 1)" using Suc.hyps(2) len by simp
  have ne: "bids' \<noteq> []" using Suc.prems(1) len by auto
  from Suc.hyps(1)[OF d ne _ inv] pos len Suc.prems(4)
  obtain bs where bs: "selectionLoop bids' (?n - 1) ?n (pos + 1) = Some bs"
    "length bs = ?n" "mset bs = mset bids'" "sorted (map title bs)"
    by auto
  from pos Suc.prems(4) have "pos < 2 ^ 31" by simp
  then have conv: "int_of_size_t pos = int pos" by (rule int_of_size_t_small)
  have "selectionLoop bids (?n - 1) ?n pos = Some bs"
    using pos r(1) sw bs(1) by (subst selectionLoop.simps) (simp add: conv)
  with bs ms show ?case by simp
qed

lemma size_t_of_int_size:
  assumes "bids \<noteq> []" "length bids < 2 ^ 31"
  shows "int_of_size_t (length bids) = int (length bids)"
    and "int_sub (int (length bids)) 1 = Some (int (length bids) - 1)"
    and "size_t_of_int (int (length bids) - 1) = length bids - 1"
    and "size_t_of_int (int (length bids)) = length bids"
proof -
  from assms(1) have pos: "0 < length bids" by simp
  from assms(2) have len: "int (length bids) < 2 ^ 31" by simp
  show "int_of_size_t (length bids) = int (length bids)"
    using assms(2) by (rule int_of_size_t_small)
  show "int_sub (int (length bids)) 1 = Some (int (length bids) - 1)"
    using len by (simp add: int_range_def)
  from pos len have "0 \<le> int (length bids) - 1" "int (length bids) - 1 < 2 ^ 64"
    by simp_all
  then have "(int (length bids) - 1) mod 2 ^ 64 = int (length bids) - 1"
    by (rule mod_pos_pos_trivial)
  then show "size_t_of_int (int (length bids) - 1) = length bids - 1"
    using pos by (simp add: size_t_of_int_def nat_diff_distrib')
  from len have "0 \<le> int (length bids)" "int (length bids) < 2 ^ 64" by simp_all
  then have "int (length bids) mod 2 ^ 64 = int (length bids)"
    by (rule mod_pos_pos_trivial)
  then show "size_t_of_int (int (length bids)) = length bids"
    by (simp add: size_t_of_int_def)
qed

lemma selectionSort_unfold:
  "bids \<noteq> [] \<Longrightarrow> length bids < 2 ^ 31 \<Longrightarrow>
   selectionSort bids = selectionLoop bids (length bids - 1) (length bids) 0"
  by (simp add: selectionSort_def size_t_of_int_size)

lemma selectionSort_full:
  assumes "bids \<noteq> []" "length bids < 2 ^ 31"
  shows "\<exists>bs. selectionSort bids = Some bs \<and> length bs = length bids \<and>
           mset bs = mset bids \<and> sorted (map title bs)"
proof -
  have "prefix_sorted bids 0" by (simp add: prefix_sorted_def)
  from selectionLoop_post[OF assms(1) _ this assms(2)] show ?thesis
    by (simp add: selectionSort_unfold[OF assms])
qed

lemma selectionLoop_sorted:
  assumes "bids \<noteq> []" "sorted (map title bids)" "pos \<le> length bids - 1"
    "length bids < 2 ^ 31"
  shows "selectionLoop bids (length bids - 1) (length bids) pos = Some bids"
  using assms
proof (induction "length bids - 1 - pos" arbitrary: pos)
  case 0
  then have "pos = length bids - 1" by simp
  then show ?case by (subst selectionLoop.simps) simp
next
  case (Suc d)
  let ?n = "length bids"
  from Suc.hyps(2) have pos: "pos < ?n - 1" by simp
  have "\<exists>r. findMin bids ?n (pos + 1) (int pos) = Some (int r) \<and> pos \<le> r \<and> r < ?n \<and>
           (\<forall>k. pos \<le> k \<and> k < ?n \<longrightarrow> title (bids ! r) \<le> title (bids ! k)) \<and>
           (\<forall>k. pos \<le> k \<and> k < r \<longrightarrow> title (bids ! r) < title (bids ! k))"
  proof (rule findMin_post)
    show "\<forall>k. pos \<le> k \<and> k < pos + 1 \<longrightarrow> title (bids ! pos) \<le> title (bids ! k)"
    proof (intro allI impI)
      fix k assume "pos \<le> k \<and> k < pos + 1"
      then have "k = pos" by simp
      then show "title (bids ! pos) \<le> title (bids ! k)" by simp
    qed
  qed (use pos Suc.prems in auto)
  then obtain r where r: "findMin bids ?n (pos + 1) (int pos) = Some (int r)" "pos \<le> r" "r < ?n"
    and first: "\<forall>k. pos \<le> k \<and> k < r \<longrightarrow> title (bids ! r) < title (bids ! k)"
    by blast
  have "r = pos"
  proof (rule ccontr)
    assume "r \<noteq> pos"
    with r first have "title (bids ! r) < title (bids ! pos)" by simp
    moreover from Suc.prems(2) r have "map title bids ! pos \<le> map title bids ! r"
      by (intro sorted_nth_mono) simp_all
    ultimately show False using r pos by simp
  qed
  with r pos have sw: "swap_at bids (int pos) (int r) = Some bids"
    by (simp add: swap_at_nat)
  have d: "d = ?n - 1 - (pos + 1)" using Suc.hyps(2) by simp
  from Suc.hyps(1)[OF d Suc.prems(1,2) _ Suc.prems(4)] pos
  have "selectionLoop bids (?n - 1) ?n (pos + 1) = Some bids" by simp
  moreover from pos Suc.prems(4) have "pos < 2 ^ 31" by simp
  then have "int_of_size_t pos = int pos" by (rule int_of_size_t_small)
  ultimately show ?case using pos r(1) sw by (subst selectionLoop.simps) simp
qed

lemma selectionSort_sorted:
  "bids \<noteq> [] \<Longrightarrow> sorted (map title bids) \<Longrightarrow> length bids < 2 ^ 31 \<Longrightarrow>
   selectionSort bids = Some bids"
proof -
  assume a: "bids \<noteq> []" "sorted (map title bids)" "length bids < 2 ^ 31"
  have "selectionLoop bids (length bids - 1) (length bids) 0 = Some bids"
    using a(1,2) _ a(3) by (rule selectionLoop_sorted) simp
  with selectionSort_unfold[OF a(1,3)] show ?thesis by simp
qed

lemma sorted_titles_unique:
  assumes "sorted (map title xs)" "sorted (map title ys)" "mset xs = mset ys"
  shows "map title xs = map title ys"
proof -
  from assms(3) have "mset (map title xs) = mset (map title ys)" by simp
  with assms(1,2) show ?thesis
    by (metis properties_for_sort)
qed

lemma distinct_titles_unique:
  assumes "map title xs = map title ys" "mset xs = mset ys" "distinct (map title xs)"
  shows "xs = ys"
proof -
  from assms(2) have "set xs = set ys" by (rule mset_eq_setD)
  moreover from assms(3) have "inj_on title (set xs)" by (simp add: distinct_map)
  ultimately have "inj_on title (set xs \<union> set ys)" by simp
  with assms(1) show ?thesis by (rule map_inj_on)
qed

section \<open>Properties of the conversion and of the loader\<close>

lemma tolower_zero: "tolower c = CHR ''0'' \<Longrightarrow> c = CHR ''0''"
proof (cases "CHR ''A'' \<le> c \<and> c \<le> CHR ''Z''")
  case True
  assume "tolower c = CHR ''0''"
  with True have "char_of (of_char c + (32::nat)) = CHR ''0''" by (simp add: tolower_def)
  then have "of_char (char_of (of_char c + (32::nat)) :: char) = (of_char (CHR ''0'') :: nat)"
    by simp
  then have "(of_char c + 32) mod 256 = (48::nat)" by simp
  moreover from True have "(65::nat) \<le> of_char c" "of_char c \<le> (90::nat)"
    by (simp_all add: less_eq_char_def)
  ultimately show ?thesis by simp
next
  case False
  then have "tolower c = c" by (auto simp: tolower_def)
  moreover assume "tolower c = CHR ''0''"
  ultimately show ?thesis by simp
qed

lemma strToDouble_no_number:
  assumes "\<not> begins_number (skip_sign (skip_space (c_str (erase_all ch str))))"
  shows "strToDouble str ch = Finite 0"
proof -
  define u where "u = skip_sign (skip_space (c_str (erase_all ch str)))"
  from assms have nb: "\<not> begins_number u" by (simp add: u_def)
  then have inf: "\<not> starts_ci ''inf'' u" and nan: "\<not> starts_ci ''nan'' u"
    by (auto simp: begins_number_def starts_ci_def)
  have d0: "isdigit (CHR ''0'')" by (simp add: isdigit_def)
  have nhex: "\<not> hex_prefix u"
  proof
    assume "hex_prefix u"
    then have "starts_ci ''0x'' u" by (simp add: hex_prefix_def)
    then obtain c r where "u = c # r" "tolower c = CHR ''0''"
      by (cases u) (auto simp: starts_ci_def)
    then have "u \<noteq> [] \<and> hd u = CHR ''0''"
      by (simp add: tolower_zero)
    with nb d0 show False by (simp add: begins_number_def)
  qed
  have ip: "takeWhile isdigit u = []" and r: "dropWhile isdigit u = u"
    using nb by (cases u; simp add: begins_number_def)+
  have fp: "(if u \<noteq> [] \<and> hd u = CHR ''.'' then takeWhile isdigit (tl u) else []) = []"
    using nb by (cases "tl u") (auto simp: begins_number_def)
  have "decimal_value u = 0"
    by (simp add: decimal_value_def mantissa_value_def ip r fp)
  with inf nan nhex show ?thesis
    by (simp add: strToDouble_def atof_def u_def[symmetric] Let_def)
qed

lemma load_rows_append:
  assumes "\<forall>r \<in> set good. \<exists>b. read_bid r = Inr b"
  shows "load_rows (good @ rest) acc = load_rows rest (acc @ map (projr \<circ> read_bid) good)"
  using assms
proof (induction good arbitrary: acc)
  case Nil
  show ?case by simp
next
  case (Cons r good)
  then obtain b where b: "read_bid r = Inr b" by auto
  with Cons show ?case by simp
qed

lemma loadBids_partial:
  assumes "\<forall>r \<in> set good. \<exists>b. read_bid r = Inr b" and "read_bid bad = Inl e"
  shows "loadBids (Inr (good @ bad # rest)) csvPath =
           ([Cout (''Loading CSV file '' @ csvPath), Cerr (''Error loading CSV: '' @ what e)],
            Returned (map (projr \<circ> read_bid) good))"
  using assms by (simp add: loadBids_def load_rows_append)

lemma loadBids_complete:
  assumes "\<forall>r \<in> set rows. \<exists>b. read_bid r = Inr b"
  shows "loadBids (Inr rows) csvPath =
           ([Cout (''Loading CSV file '' @ csvPath)], Returned (map (projr \<circ> read_bid) rows))"
  using load_rows_append[OF assms, of "[]" "[]"] by (simp add: loadBids_def)

section \<open>Claims of the specification\<close>

text \<open>
  C1. Both sorts are meant to leave every vector in ascending order of title. \<open>quickSort\<close>
  over \<open>0..N-1\<close> does, for every vector of at most \<open>2^30\<close> records, and \<open>selectionSort\<close> does
  for every such vector that is not empty. On the empty vector \<open>selectionSort\<close> reads
  \<open>bids[0]\<close>, outside the vector, and returns no ordered vector.
\<close>

theorem sorts_order_by_title:
  "\<not> (\<exists>bs. selectionSort [] = Some bs \<and> sorted (map title bs)) \<and>
   (bids \<noteq> [] \<and> length bids \<le> 2 ^ 30 \<longrightarrow>
      (\<exists>bs. selectionSort bids = Some bs \<and> sorted (map title bs))) \<and>
   (length bids \<le> 2 ^ 30 \<longrightarrow>
      (\<exists>bs. quickSort bids 0 (int (length bids) - 1) = Some bs \<and> sorted (map title bs)))"
proof (intro conjI impI)
  show "\<not> (\<exists>bs. selectionSort [] = Some bs \<and> sorted (map title bs))"
    by (simp add: selectionSort_def int_of_size_t_def int_range_def size_t_of_int_def
        selectionLoop.simps findMin.simps swap_at_def elem_at_def)
next
  assume a: "bids \<noteq> [] \<and> length bids \<le> 2 ^ 30"
  then have "length bids < 2 ^ 31" by (simp add: le_less_trans)
  with a selectionSort_full[of bids]
  show "\<exists>bs. selectionSort bids = Some bs \<and> sorted (map title bs)" by blast
next
  assume "length bids \<le> 2 ^ 30"
  from quickSort_full[OF this]
  show "\<exists>bs. quickSort bids 0 (int (length bids) - 1) = Some bs \<and> sorted (map title bs)"
    by blast
qed

theorem sorts_order_by_title_witness:
  "[bid_C, bid_B2, bid_A, bid_B1] \<noteq> [] \<and> length [bid_C, bid_B2, bid_A, bid_B1] \<le> 2 ^ 30 \<and>
   (\<exists>bs. selectionSort [bid_C, bid_B2, bid_A, bid_B1] = Some bs \<and> sorted (map title bs)) \<and>
   (\<exists>bs. quickSort [bid_C, bid_B2, bid_A, bid_B1] 0
           (int (length [bid_C, bid_B2, bid_A, bid_B1]) - 1) = Some bs \<and>
         sorted (map title bs))"
proof -
  have n: "[bid_C, bid_B2, bid_A, bid_B1] \<noteq> []" by simp
  have l: "length [bid_C, bid_B2, bid_A, bid_B1] \<le> 2 ^ 30" by simp
  from sorts_order_by_title[of "[bid_C, bid_B2, bid_A, bid_B1]"] n l show ?thesis by blast
qed

text \<open>
  C2. On the empty vector \<open>quickSort\<close>, called as the driver calls it, returns the empty
  vector. \<open>selectionSort\<close> does not: \<open>size - 1\<close> is \<open>-1\<close>, the comparison \<open>pos < size - 1\<close>
  converts it to the largest \<open>size_t\<close>, the outer loop is entered with \<open>pos = 0\<close>, and
  \<open>swap(bids[0], bids[0])\<close> reads outside the vector.
\<close>

theorem empty_sequence:
  "selectionSort [] = None \<and> quickSort_driver [] = Some []"
  by (simp add: selectionSort_def size_t_of_int_def selectionLoop.simps findMin.simps
      swap_at_def elem_at_def quickSort_driver_def size_t_sub_def int_of_size_t_def
      int_range_def quickSort.simps)

text \<open>
  C3 (counterexample). With \<open>$\<close> removed the string is \<open>1,200.50\<close>; \<open>atof\<close> converts the
  digits before the comma and the result is not 1200.50.
\<close>

theorem strToDouble_comma_counterexample:
  "strToDouble ''$1,200.50'' (CHR ''$'') \<noteq> Finite 1200.5"
  by (simp add: strToDouble_def atof_def c_str_def erase_all_def skip_space_def skip_sign_def
      hex_prefix_def decimal_value_def mantissa_value_def exponent_def starts_ci_def
      scale_def digits_val_def digit_val_def tolower_def isdigit_def isspace_def
      less_eq_char_def)

text \<open>
  C3 (amended). \<open>strToDouble\<close> applied to \<open>$1,200.50\<close> with \<open>$\<close> to strip returns 1, the
  number before the comma; applied to \<open>$1200.50\<close> with \<open>$\<close> to strip it returns 1200.50.
  Any character can be the one stripped: applied to \<open>1,200\<close> with the comma to strip it
  returns 1200.
\<close>

theorem strToDouble_examples:
  "strToDouble ''$1,200.50'' (CHR ''$'') = Finite 1 \<and>
   strToDouble ''$1200.50'' (CHR ''$'') = Finite 1200.5 \<and>
   strToDouble ''1,200'' (CHR '','') = Finite 1200"
  by (simp add: strToDouble_def atof_def c_str_def erase_all_def skip_space_def skip_sign_def
      hex_prefix_def decimal_value_def mantissa_value_def exponent_def starts_ci_def
      scale_def digits_val_def digit_val_def tolower_def isdigit_def isspace_def
      less_eq_char_def)

text \<open>
  C4 (counterexample). The vector \<open>[bid_B1, bid_B2]\<close> is in ascending order of title, its
  two records share the title and differ in the other fields; \<open>quickSort\<close> exchanges them.
\<close>

theorem quickSort_changes_sorted_counterexample:
  "sorted (map title [bid_B1, bid_B2]) \<and>
   quickSort [bid_B1, bid_B2] 0 (int (length [bid_B1, bid_B2]) - 1) \<noteq> Some [bid_B1, bid_B2]"
  by (simp add: quickSort.simps partition_bids_def c_div_def partition_loop.simps
      scanLow.simps scanHigh.simps swap_at_def elem_at_def int_range_def less_char_def
      bid_B1_def bid_B2_def)

text \<open>
  C4 (amended). On a vector of at most \<open>2^30\<close> records already in ascending order of title,
  \<open>selectionSort\<close> returns the vector unchanged when it is not empty. \<open>quickSort\<close> over
  \<open>0..N-1\<close> returns a permutation with the same title at every position; it returns the
  vector unchanged when no two records share a title.
\<close>

theorem sorted_input_kept:
  assumes "sorted (map title bids)" and "length bids \<le> 2 ^ 30"
  shows "(bids \<noteq> [] \<longrightarrow> selectionSort bids = Some bids) \<and>
         (\<exists>bs. quickSort bids 0 (int (length bids) - 1) = Some bs \<and> mset bs = mset bids \<and>
               map title bs = map title bids \<and> (distinct (map title bids) \<longrightarrow> bs = bids))"
proof -
  from quickSort_full[OF assms(2)] obtain bs where
    bs: "quickSort bids 0 (int (length bids) - 1) = Some bs" "mset bs = mset bids"
      "sorted (map title bs)"
    by blast
  have t: "map title bs = map title bids"
    using bs(3) assms(1) bs(2) by (rule sorted_titles_unique)
  have "bs = bids" if "distinct (map title bids)"
    using t bs(2) that by (simp add: distinct_titles_unique)
  moreover from assms(2) have "length bids < 2 ^ 31" by (simp add: le_less_trans)
  ultimately show ?thesis using bs t assms(1) by (simp add: selectionSort_sorted)
qed

theorem sorted_input_kept_witness:
  "sorted (map title [bid_A, bid_B1, bid_C]) \<and> length [bid_A, bid_B1, bid_C] \<le> 2 ^ 30 \<and>
   [bid_A, bid_B1, bid_C] \<noteq> [] \<and> distinct (map title [bid_A, bid_B1, bid_C]) \<and>
   selectionSort [bid_A, bid_B1, bid_C] = Some [bid_A, bid_B1, bid_C] \<and>
   quickSort [bid_A, bid_B1, bid_C] 0 2 = Some [bid_A, bid_B1, bid_C]"
proof -
  have h: "sorted (map title [bid_A, bid_B1, bid_C])"
    by (simp add: less_char_def bid_A_def bid_B1_def bid_C_def)
  have l: "length [bid_A, bid_B1, bid_C] \<le> 2 ^ 30" by simp
  have d: "distinct (map title [bid_A, bid_B1, bid_C])"
    by (simp add: bid_A_def bid_B1_def bid_C_def)
  from sorted_input_kept[OF h l] d h l show ?thesis by auto
qed

text \<open>
  C5 (counterexample). On \<open>[bid_B1, bid_B2]\<close>, two records with the same title,
  \<open>selectionSort\<close> keeps the order and \<open>quickSort\<close> exchanges the records.
\<close>

theorem sorts_differ_counterexample:
  "selectionSort [bid_B1, bid_B2] \<noteq>
   quickSort [bid_B1, bid_B2] 0 (int (length [bid_B1, bid_B2]) - 1)"
  by (simp add: selectionSort_def int_of_size_t_def size_t_of_int_def selectionLoop.simps
      findMin.simps quickSort.simps partition_bids_def c_div_def partition_loop.simps
      scanLow.simps scanHigh.simps swap_at_def elem_at_def int_range_def less_char_def
      bid_B1_def bid_B2_def)

text \<open>
  C5 (amended). On every non-empty vector of at most \<open>2^30\<close> records \<open>selectionSort\<close> and
  \<open>quickSort\<close> over \<open>0..N-1\<close> both return a permutation of the input in ascending order of
  title, with the same title at every position; the two results are the same vector when
  no two records share a title.
\<close>

theorem sorts_agree_on_titles:
  assumes "bids \<noteq> []" and "length bids \<le> 2 ^ 30"
  shows "\<exists>s q. selectionSort bids = Some s \<and> quickSort bids 0 (int (length bids) - 1) = Some q \<and>
           sorted (map title s) \<and> mset s = mset bids \<and> mset q = mset bids \<and>
           map title s = map title q \<and> (distinct (map title bids) \<longrightarrow> s = q)"
proof -
  from assms(2) have "length bids < 2 ^ 31" by (simp add: le_less_trans)
  from selectionSort_full[OF assms(1) this] obtain s where
    s: "selectionSort bids = Some s" "mset s = mset bids" "sorted (map title s)"
    by blast
  from quickSort_full[OF assms(2)] obtain q where
    q: "quickSort bids 0 (int (length bids) - 1) = Some q" "mset q = mset bids"
      "sorted (map title q)"
    by blast
  have t: "map title s = map title q"
    using s(3) q(3) by (rule sorted_titles_unique) (simp add: s(2) q(2))
  have "s = q" if "distinct (map title bids)"
  proof -
    from s(2) have "mset (map title s) = mset (map title bids)" by simp
    with that have "distinct (map title s)" by (metis mset_eq_imp_distinct_iff)
    with t show ?thesis by (simp add: distinct_titles_unique s(2) q(2))
  qed
  with s q t show ?thesis by simp
qed

theorem sorts_agree_on_titles_witness:
  "[bid_C, bid_B1, bid_A] \<noteq> [] \<and> length [bid_C, bid_B1, bid_A] \<le> 2 ^ 30 \<and>
   distinct (map title [bid_C, bid_B1, bid_A]) \<and>
   (\<exists>s. selectionSort [bid_C, bid_B1, bid_A] = Some s \<and>
        quickSort [bid_C, bid_B1, bid_A] 0 (int (length [bid_C, bid_B1, bid_A]) - 1) = Some s \<and>
        sorted (map title s))"
proof -
  have n: "[bid_C, bid_B1, bid_A] \<noteq> []" by simp
  have l: "length [bid_C, bid_B1, bid_A] \<le> 2 ^ 30" by simp
  have d: "distinct (map title [bid_C, bid_B1, bid_A])"
    by (simp add: bid_A_def bid_B1_def bid_C_def)
  from sorts_agree_on_titles[OF n l] d n l show ?thesis by auto
qed

text \<open>
  C6. Both sorts are meant to return a vector of the same length that is a permutation of
  the input. \<open>quickSort\<close> over \<open>0..N-1\<close> does, for every vector of at most \<open>2^30\<close> records,
  and \<open>selectionSort\<close> does for every such vector that is not empty. For \<open>N = 0\<close>
  \<open>selectionSort\<close> reads outside the vector and returns no vector at all.
\<close>

theorem sorts_permute:
  "\<not> (\<exists>bs. selectionSort [] = Some bs \<and> length bs = 0 \<and> mset bs = mset []) \<and>
   (bids \<noteq> [] \<and> length bids \<le> 2 ^ 30 \<longrightarrow>
      (\<exists>bs. selectionSort bids = Some bs \<and> length bs = length bids \<and> mset bs = mset bids)) \<and>
   (length bids \<le> 2 ^ 30 \<longrightarrow>
      (\<exists>bs. quickSort bids 0 (int (length bids) - 1) = Some bs \<and> length bs = length bids \<and>
         mset bs = mset bids))"
proof (intro conjI impI)
  show "\<not> (\<exists>bs. selectionSort [] = Some bs \<and> length bs = 0 \<and> mset bs = mset [])"
    by (simp add: selectionSort_def int_of_size_t_def int_range_def size_t_of_int_def
        selectionLoop.simps findMin.simps swap_at_def elem_at_def)
next
  assume a: "bids \<noteq> [] \<and> length bids \<le> 2 ^ 30"
  then have "length bids < 2 ^ 31" by (simp add: le_less_trans)
  with a selectionSort_full[of bids]
  show "\<exists>bs. selectionSort bids = Some bs \<and> length bs = length bids \<and> mset bs = mset bids"
    by blast
next
  assume "length bids \<le> 2 ^ 30"
  from quickSort_full[OF this]
  show "\<exists>bs. quickSort bids 0 (int (length bids) - 1) = Some bs \<and> length bs = length bids \<and>
         mset bs = mset bids"
    by blast
qed

theorem sorts_permute_witness:
  "[bid_C, bid_B2, bid_A] \<noteq> [] \<and> length [bid_C, bid_B2, bid_A] \<le> 2 ^ 30 \<and>
   (\<exists>bs. selectionSort [bid_C, bid_B2, bid_A] = Some bs \<and>
         length bs = length [bid_C, bid_B2, bid_A] \<and> mset bs = mset [bid_C, bid_B2, bid_A]) \<and>
   (\<exists>bs. quickSort [bid_C, bid_B2, bid_A] 0 (int (length [bid_C, bid_B2, bid_A]) - 1) = Some bs \<and>
         length bs = length [bid_C, bid_B2, bid_A] \<and> mset bs = mset [bid_C, bid_B2, bid_A])"
proof -
  have n: "[bid_C, bid_B2, bid_A] \<noteq> []" by simp
  have l: "length [bid_C, bid_B2, bid_A] \<le> 2 ^ 30" by simp
  from sorts_permute[of "[bid_C, bid_B2, bid_A]"] n l show ?thesis by blast
qed

text \<open>
  C7 (counterexample). \<open>bid_B1\<close> and \<open>bid_B2\<close> share a title and \<open>bid_B1\<close> comes first;
  \<open>selectionSort\<close> exchanges \<open>bid_B1\<close> with the minimum \<open>bid_A\<close> and so moves it behind
  \<open>bid_B2\<close>.
\<close>

theorem selectionSort_not_stable_counterexample:
  "selectionSort [bid_B1, bid_B2, bid_A] = Some [bid_A, bid_B2, bid_B1] \<and>
   with_title ''Bridge'' [bid_A, bid_B2, bid_B1] \<noteq> with_title ''Bridge'' [bid_B1, bid_B2, bid_A]"
  by (simp add: selectionSort_def int_of_size_t_def size_t_of_int_def selectionLoop.simps
      findMin.simps swap_at_def elem_at_def int_range_def less_char_def with_title_def
      bid_A_def bid_B1_def bid_B2_def)

text \<open>
  C7 (amended). Let the vector be non-empty and of fewer than \<open>2^31\<close> records, so that its
  size is an \<open>int\<close>. \<open>selectionSort\<close> runs its outer loop from position 0, and at every
  position \<open>pos\<close> below the bound \<open>size - 1\<close> of that loop the inner scan returns the first
  record of minimum title among \<open>bids[pos..N-1]\<close>: its title is at most every title of the
  range and strictly below every title of the range before it, because the strict
  comparison never replaces the current minimum by an equal one. That record is then
  exchanged with \<open>bids[pos]\<close>.
\<close>

theorem selectionSort_step_first_minimum:
  assumes "bids \<noteq> []" and "length bids < 2 ^ 31"
    and "pos < size_t_of_int (int_of_size_t (length bids) - 1)"
  shows "selectionSort bids =
           selectionLoop bids (size_t_of_int (int_of_size_t (length bids) - 1))
             (size_t_of_int (int_of_size_t (length bids))) 0 \<and>
         (\<exists>r. findMin bids (size_t_of_int (int_of_size_t (length bids))) (pos + 1)
                 (int_of_size_t pos) = Some (int r) \<and>
           pos \<le> r \<and> r < length bids \<and>
           (\<forall>k. pos \<le> k \<and> k < length bids \<longrightarrow> title (bids ! r) \<le> title (bids ! k)) \<and>
           (\<forall>k. pos \<le> k \<and> k < r \<longrightarrow> title (bids ! r) < title (bids ! k)) \<and>
           selectionLoop bids (size_t_of_int (int_of_size_t (length bids) - 1))
               (size_t_of_int (int_of_size_t (length bids))) pos =
             selectionLoop (bids[pos := bids ! r, r := bids ! pos])
               (size_t_of_int (int_of_size_t (length bids) - 1))
               (size_t_of_int (int_of_size_t (length bids))) (pos + 1))"
proof -
  note sz = size_t_of_int_size[OF assms(1,2)]
  from assms(3) have pos: "pos < length bids - 1" by (simp add: sz)
  with assms(2) have "pos < 2 ^ 31" by simp
  then have conv: "int_of_size_t pos = int pos" by (rule int_of_size_t_small)
  have "\<exists>r. findMin bids (length bids) (pos + 1) (int pos) = Some (int r) \<and>
           pos \<le> r \<and> r < length bids \<and>
           (\<forall>k. pos \<le> k \<and> k < length bids \<longrightarrow> title (bids ! r) \<le> title (bids ! k)) \<and>
           (\<forall>k. pos \<le> k \<and> k < r \<longrightarrow> title (bids ! r) < title (bids ! k))"
  proof (rule findMin_post)
    show "\<forall>k. pos \<le> k \<and> k < pos + 1 \<longrightarrow> title (bids ! pos) \<le> title (bids ! k)"
    proof (intro allI impI)
      fix k assume "pos \<le> k \<and> k < pos + 1"
      then have "k = pos" by simp
      then show "title (bids ! pos) \<le> title (bids ! k)" by simp
    qed
  qed (use pos assms(2) in auto)
  then obtain r where r: "findMin bids (length bids) (pos + 1) (int pos) = Some (int r)"
    "pos \<le> r" "r < length bids"
    "\<forall>k. pos \<le> k \<and> k < length bids \<longrightarrow> title (bids ! r) \<le> title (bids ! k)"
    "\<forall>k. pos \<le> k \<and> k < r \<longrightarrow> title (bids ! r) < title (bids ! k)"
    by blast
  have "swap_at bids (int pos) (int r) = Some (bids[pos := bids ! r, r := bids ! pos])"
    using pos r(3) by (simp add: swap_at_nat)
  with pos r(1) have
    "selectionLoop bids (length bids - 1) (length bids) pos =
       selectionLoop (bids[pos := bids ! r, r := bids ! pos])
         (length bids - 1) (length bids) (pos + 1)"
    by (subst selectionLoop.simps) (simp add: conv)
  with r have "\<exists>r. findMin bids (length bids) (pos + 1) (int pos) = Some (int r) \<and>
           pos \<le> r \<and> r < length bids \<and>
           (\<forall>k. pos \<le> k \<and> k < length bids \<longrightarrow> title (bids ! r) \<le> title (bids ! k)) \<and>
           (\<forall>k. pos \<le> k \<and> k < r \<longrightarrow> title (bids ! r) < title (bids ! k)) \<and>
           selectionLoop bids (length bids - 1) (length bids) pos =
             selectionLoop (bids[pos := bids ! r, r := bids ! pos])
               (length bids - 1) (length bids) (pos + 1)"
    by blast
  moreover have "selectionSort bids = selectionLoop bids (length bids - 1) (length bids) 0"
    using assms(1,2) by (rule selectionSort_unfold)
  ultimately show ?thesis by (simp only: sz conv)
qed

theorem selectionSort_step_first_minimum_witness:
  "[bid_C, bid_B1, bid_B2] \<noteq> [] \<and> length [bid_C, bid_B1, bid_B2] < 2 ^ 31 \<and>
   0 < size_t_of_int (int_of_size_t (length [bid_C, bid_B1, bid_B2]) - 1) \<and>
   title ([bid_C, bid_B1, bid_B2] ! 1) = title ([bid_C, bid_B1, bid_B2] ! 2) \<and>
   findMin [bid_C, bid_B1, bid_B2] (size_t_of_int (int_of_size_t (length [bid_C, bid_B1, bid_B2])))
     (0 + 1) (int_of_size_t 0) = Some (int 1) \<and>
   selectionLoop [bid_C, bid_B1, bid_B2]
       (size_t_of_int (int_of_size_t (length [bid_C, bid_B1, bid_B2]) - 1))
       (size_t_of_int (int_of_size_t (length [bid_C, bid_B1, bid_B2]))) 0 =
     selectionLoop [bid_B1, bid_C, bid_B2]
       (size_t_of_int (int_of_size_t (length [bid_C, bid_B1, bid_B2]) - 1))
       (size_t_of_int (int_of_size_t (length [bid_C, bid_B1, bid_B2]))) (0 + 1)"
proof -
  let ?L = "[bid_C, bid_B1, bid_B2]"
  have n: "?L \<noteq> []" by simp
  have l: "length ?L < 2 ^ 31" by simp
  have h: "0 < size_t_of_int (int_of_size_t (length ?L) - 1)"
    by (simp add: int_of_size_t_def size_t_of_int_def)
  have t: "title (?L ! 1) = title (?L ! 2)" by (simp add: bid_B1_def bid_B2_def)
  from selectionSort_step_first_minimum[OF n l h] obtain r where
    r: "findMin ?L (size_t_of_int (int_of_size_t (length ?L))) (0 + 1) (int_of_size_t 0)
          = Some (int r)"
    and step: "selectionLoop ?L (size_t_of_int (int_of_size_t (length ?L) - 1))
         (size_t_of_int (int_of_size_t (length ?L))) 0 =
       selectionLoop (?L[0 := ?L ! r, r := ?L ! 0])
         (size_t_of_int (int_of_size_t (length ?L) - 1))
         (size_t_of_int (int_of_size_t (length ?L))) (0 + 1)"
    by blast
  have "findMin ?L (size_t_of_int (int_of_size_t (length ?L))) (0 + 1) (int_of_size_t 0)
          = Some (int 1)"
    by (simp add: findMin.simps elem_at_def int_of_size_t_def size_t_of_int_def less_char_def
        bid_B1_def bid_B2_def bid_C_def)
  with r have r1: "r = 1" by simp
  have "?L[0 := ?L ! 1, 1 := ?L ! 0] = [bid_B1, bid_C, bid_B2]" by simp
  with n l h t r step r1 show ?thesis by simp
qed

text \<open>
  C8. A failure inside the loop over the rows is caught and reported on \<open>cerr\<close>, and the
  records read before it are returned, one for each row read, in file order. A failure of
  the parser itself, which is where a missing file shows, is not caught:
  \<open>csv::Parser(csvPath)\<close> is constructed before the \<open>try\<close> block, so its \<open>csv::Error\<close>
  leaves \<open>loadBids\<close> with nothing reported and nothing returned. (Were the constructor to
  answer a missing file with no rows instead, \<open>loadBids\<close> would return the empty vector and
  report nothing.)
\<close>

theorem loadBids_failures:
  "loadBids (Inl e) csvPath = ([Cout (''Loading CSV file '' @ csvPath)], Uncaught e) \<and>
   loadBids (Inr []) csvPath = ([Cout (''Loading CSV file '' @ csvPath)], Returned []) \<and>
   ((\<forall>r \<in> set good. \<exists>b. read_bid r = Inr b) \<and> read_bid bad = Inl e' \<longrightarrow>
      loadBids (Inr (good @ bad # rest)) csvPath =
        ([Cout (''Loading CSV file '' @ csvPath), Cerr (''Error loading CSV: '' @ what e')],
         Returned (map (projr \<circ> read_bid) good)))"
  by (simp add: loadBids_partial) (simp add: loadBids_def)

theorem loadBids_failures_witness:
  "read_bid row_Bridge = Inr bid_B1 \<and> read_bid row_Arch = Inr bid_A \<and>
   read_bid row_short = Inl (Error ''no such column'') \<and>
   loadBids (Inr ([row_Bridge, row_Arch] @ row_short # [row_Arch])) ''bids.csv'' =
     ([Cout ''Loading CSV file bids.csv'', Cerr ''Error loading CSV: no such column''],
      Returned [bid_B1, bid_A])"
proof -
  have rb: "read_bid row_Bridge = Inr bid_B1" "read_bid row_Arch = Inr bid_A"
    "read_bid row_short = Inl (Error ''no such column'')"
    by (simp_all add: read_bid_def row_Bridge_def row_Arch_def row_short_def row_of_def Bid_new_def
        bid_A_def bid_B1_def strToDouble_def atof_def c_str_def erase_all_def skip_space_def
        skip_sign_def hex_prefix_def decimal_value_def mantissa_value_def exponent_def
        starts_ci_def scale_def digits_val_def digit_val_def tolower_def isdigit_def
        isspace_def less_eq_char_def)
  then have h: "(\<forall>r \<in> set [row_Bridge, row_Arch]. \<exists>b. read_bid r = Inr b) \<and>
    read_bid row_short = Inl (Error ''no such column'')"
    by simp
  from loadBids_failures[of "Error []" "''bids.csv''" "[row_Bridge, row_Arch]" row_short
      "Error ''no such column''" "[row_Arch]"] h rb
  show ?thesis by simp
qed

text \<open>
  C9 (counterexample). The remainder \<open>12abc\<close> is not a decimal number, and the result is
  the 12 it begins with, not zero. The remainder \<open>inf\<close> is not a decimal number either,
  and the result is an infinity.
\<close>

theorem strToDouble_prefix_counterexample:
  "\<not> decimal_number (c_str (erase_all (CHR ''$'') ''12abc'')) \<and>
   strToDouble ''12abc'' (CHR ''$'') = Finite 12 \<and> Finite 12 \<noteq> Finite 0 \<and>
   \<not> decimal_number (c_str (erase_all (CHR ''$'') ''inf'')) \<and>
   strToDouble ''inf'' (CHR ''$'') = PosInf \<and> PosInf \<noteq> Finite 0"
  by (simp add: decimal_number_def strToDouble_def atof_def c_str_def erase_all_def
      skip_space_def skip_sign_def hex_prefix_def decimal_value_def mantissa_value_def
      exponent_def starts_ci_def scale_def digits_val_def digit_val_def tolower_def
      isdigit_def isspace_def less_eq_char_def)

text \<open>
  C9 (amended). When the remainder is empty, or does not begin, after white space and an
  optional sign, with anything \<open>atof\<close> converts, \<open>strToDouble\<close> returns zero. \<open>strToDouble\<close>
  is a total function into \<open>double\<close>: no input makes it raise, and nothing tells the
  caller that the conversion failed.
\<close>

theorem strToDouble_zero:
  assumes "c_str (erase_all ch str) = [] \<or>
           \<not> begins_number (skip_sign (skip_space (c_str (erase_all ch str))))"
  shows "strToDouble str ch = Finite 0"
proof -
  have "\<not> begins_number (skip_sign (skip_space (c_str (erase_all ch str))))"
  proof (cases "c_str (erase_all ch str) = []")
    case True
    then show ?thesis by (simp add: skip_space_def skip_sign_def begins_number_def)
  next
    case False
    with assms show ?thesis by simp
  qed
  then show ?thesis by (rule strToDouble_no_number)
qed

theorem strToDouble_zero_witness:
  "(c_str (erase_all (CHR ''$'') ''$$'') = [] \<or>
    \<not> begins_number (skip_sign (skip_space (c_str (erase_all (CHR ''$'') ''$$''))))) \<and>
   strToDouble ''$$'' (CHR ''$'') = Finite 0 \<and>
   (c_str (erase_all (CHR ''$'') ''$ -n/a'') = [] \<or>
    \<not> begins_number (skip_sign (skip_space (c_str (erase_all (CHR ''$'') ''$ -n/a''))))) \<and>
   strToDouble ''$ -n/a'' (CHR ''$'') = Finite 0"
proof -
  have h1: "c_str (erase_all (CHR ''$'') ''$$'') = [] \<or>
    \<not> begins_number (skip_sign (skip_space (c_str (erase_all (CHR ''$'') ''$$''))))"
    by (simp add: c_str_def erase_all_def)
  have h2: "c_str (erase_all (CHR ''$'') ''$ -n/a'') = [] \<or>
    \<not> begins_number (skip_sign (skip_space (c_str (erase_all (CHR ''$'') ''$ -n/a''))))"
    by (simp add: c_str_def erase_all_def skip_space_def skip_sign_def begins_number_def
        starts_ci_def tolower_def isdigit_def isspace_def less_eq_char_def)
  from h1 h2 strToDouble_zero[OF h1] strToDouble_zero[OF h2] show ?thesis by blast
qed




end
